theory Spec2Isabelle
  imports Main "HOL-Library.AList"
begin

section \<open>Worker pool (src/utils/workerPool.ts)\<close>

text \<open>
  The pool is a class whose methods mutate four fields (\<open>workers\<close>, \<open>idleWorkers\<close>,
  \<open>taskQueue\<close>, \<open>workerScripts\<close>) and a metrics object. Every method body runs to its end
  without an \<open>await\<close> that yields inside it (\<open>createWorker\<close> and \<open>processNextTask\<close> are
  declared \<open>async\<close> but contain no \<open>await\<close>), so each method and each event callback is one
  atomic state transformer. The worker threads, the timers and the promises of the
  submitted tasks live outside the class; the record below carries them as well, after
  the fields of the class, so that "busy", "alive" and "settled" can be spoken about.

  Worker counts are natural numbers. An option written \<open>options.x || d\<close> takes the
  default when the caller left it out and also when the caller passed \<open>0\<close>.
  The processing-time metrics are readings of a floating-point clock and are left out.
\<close>

type_synonym worker = nat

record WorkerPoolOptions =
  opt_minWorkers :: "nat option"
  opt_maxWorkers :: "nat option"
  opt_idleTimeout :: "nat option"
  opt_taskTimeout :: "nat option"

record ResolvedOptions =
  minWorkers :: nat
  maxWorkers :: nat
  idleTimeout :: nat
  taskTimeout :: nat

record WorkerTask =
  task_id :: nat
  task_type :: string

datatype outcome = Resolve | Reject string

record pool =
  options :: ResolvedOptions
  workers :: "worker list"
  idleWorkers :: "worker list"
  taskQueue :: "WorkerTask list"
  workerScripts :: "string \<Rightarrow> string option"
  completedTasks :: nat
  failedTasks :: nat
  \<comment> \<open>outside the class: worker threads, posted messages, timers, promises\<close>
  spawned :: nat
  alive :: "worker list"
  posted :: "(worker \<times> nat) list"
  timers :: "(nat \<times> worker) list"
  issued :: nat
  settled :: "(nat \<times> outcome) list"

record WorkerMetrics =
  activeWorkers :: int
  idleCount :: nat
  completedCount :: nat
  failedCount :: nat

definition or_default :: "nat option \<Rightarrow> nat \<Rightarrow> nat" where
  "or_default v d = (case v of None \<Rightarrow> d | Some n \<Rightarrow> if n = 0 then d else n)"

definition resolve_options :: "WorkerPoolOptions \<Rightarrow> ResolvedOptions" where
  "resolve_options opts =
     \<lparr> minWorkers = or_default (opt_minWorkers opts) 2,
       maxWorkers = or_default (opt_maxWorkers opts) 4,
       idleTimeout = or_default (opt_idleTimeout opts) 60000,
       taskTimeout = or_default (opt_taskTimeout opts) 30000 \<rparr>"

text \<open>
  \<open>createWorker\<close>: a new thread is started, its three listeners are attached, and the
  worker is pushed on \<open>idleWorkers\<close>. Nothing is pushed on \<open>workers\<close>.
\<close>

definition createWorker :: "pool \<Rightarrow> pool" where
  "createWorker s =
     s\<lparr> spawned := Suc (spawned s),
        alive := alive s @ [spawned s],
        idleWorkers := idleWorkers s @ [spawned s] \<rparr>"

text \<open>
  \<open>processNextTask\<close>: the head of the queue is read, not removed; the last idle worker
  is popped. Without a registered script the task is rejected and the method returns
  (the popped worker is not pushed back). Otherwise the message is posted and the
  timeout is armed.
\<close>

definition processNextTask :: "pool \<Rightarrow> pool" where
  "processNextTask s =
     (if taskQueue s = [] \<or> idleWorkers s = [] then s
      else
        let task = hd (taskQueue s);
            worker = last (idleWorkers s);
            s1 = s\<lparr> idleWorkers := butlast (idleWorkers s) \<rparr>
        in case workerScripts s1 (task_type task) of
             None \<Rightarrow>
               s1\<lparr> settled := settled s1 @ [(task_id task, Reject ''No worker script registered'')] \<rparr>
           | Some scriptPath \<Rightarrow>
               if scriptPath = [] then
                 s1\<lparr> settled := settled s1 @ [(task_id task, Reject ''No worker script registered'')] \<rparr>
               else
                 s1\<lparr> posted := posted s1 @ [(worker, task_id task)],
                     timers := timers s1 @ [(task_id task, worker)] \<rparr>)"

definition removeWorker :: "worker \<Rightarrow> pool \<Rightarrow> pool" where
  "removeWorker worker s =
     s\<lparr> workers := remove1 worker (workers s),
        idleWorkers := remove1 worker (idleWorkers s) \<rparr>"

definition handleWorkerError :: "worker \<Rightarrow> pool \<Rightarrow> pool" where
  "handleWorkerError worker s = createWorker (removeWorker worker s)"

definition handleWorkerExit :: "worker \<Rightarrow> pool \<Rightarrow> pool" where
  "handleWorkerExit worker s =
     (let s1 = removeWorker worker s
      in if length (workers s1) < minWorkers (options s1) then createWorker s1 else s1)"

text \<open>\<open>worker.terminate()\<close>: the thread stops; whatever it was running is abandoned.\<close>

definition terminate :: "worker \<Rightarrow> pool \<Rightarrow> pool" where
  "terminate worker s =
     s\<lparr> alive := removeAll worker (alive s),
        posted := filter (\<lambda>p. fst p \<noteq> worker) (posted s) \<rparr>"

function cleanupIdleWorkers :: "pool \<Rightarrow> pool" where
  "cleanupIdleWorkers s =
     (if length (workers s) > minWorkers (options s) \<and> idleWorkers s \<noteq> [] then
        cleanupIdleWorkers
          (removeWorker (last (idleWorkers s))
             (terminate (last (idleWorkers s))
                (s\<lparr> idleWorkers := butlast (idleWorkers s) \<rparr>)))
      else s)"
  by pat_completeness auto
termination
proof (relation "measure (\<lambda>s. length (idleWorkers s))")
  show "wf (measure (\<lambda>s. length (idleWorkers s)))" by simp
next
  fix s :: pool
  assume a: "minWorkers (options s) < length (workers s) \<and> idleWorkers s \<noteq> []"
  have "length (idleWorkers (removeWorker (last (idleWorkers s))
           (terminate (last (idleWorkers s)) (s\<lparr> idleWorkers := butlast (idleWorkers s) \<rparr>))))
        \<le> length (butlast (idleWorkers s))"
    by (simp add: removeWorker_def terminate_def length_remove1 del: length_butlast)
  also have "\<dots> < length (idleWorkers s)" using a by (cases "idleWorkers s") auto
  finally show "(removeWorker (last (idleWorkers s))
           (terminate (last (idleWorkers s)) (s\<lparr> idleWorkers := butlast (idleWorkers s) \<rparr>)), s)
        \<in> measure (\<lambda>s. length (idleWorkers s))"
    by simp
qed

declare cleanupIdleWorkers.simps [simp del]

text \<open>
  \<open>executeTask\<close>: the task gets a fresh id and is pushed on the queue; a worker is
  created when \<open>idleWorkers\<close> is empty and \<open>workers.length < maxWorkers\<close>; then
  \<open>processNextTask\<close> runs.
\<close>

definition executeTask :: "string \<Rightarrow> pool \<Rightarrow> pool" where
  "executeTask ty s =
     (let task = \<lparr> task_id = issued s, task_type = ty \<rparr>;
          s1 = s\<lparr> taskQueue := taskQueue s @ [task], issued := Suc (issued s) \<rparr>;
          s2 = (if idleWorkers s1 = [] \<and> length (workers s1) < maxWorkers (options s1)
                then createWorker s1 else s1)
      in processNextTask s2)"

definition registerWorkerScript :: "string \<Rightarrow> string \<Rightarrow> pool \<Rightarrow> pool" where
  "registerWorkerScript ty scriptPath s =
     s\<lparr> workerScripts := (workerScripts s)(ty \<mapsto> scriptPath) \<rparr>"

text \<open>
  The \<open>message\<close> listener of a worker. The reply carries the task id and either a result
  or an error string; an error counts when it is truthy (a non-empty string). A reply
  whose task is no longer in the queue is dropped, and the worker is not pushed back.
\<close>

definition onMessage :: "worker \<Rightarrow> nat \<Rightarrow> string option \<Rightarrow> pool \<Rightarrow> pool" where
  "onMessage worker taskId err s =
     (case find (\<lambda>t. task_id t = taskId) (taskQueue s) of
        None \<Rightarrow> s
      | Some task \<Rightarrow>
          let s1 = (case err of
                      Some e \<Rightarrow>
                        if e \<noteq> [] then
                          s\<lparr> failedTasks := Suc (failedTasks s),
                             settled := settled s @ [(task_id task, Reject e)] \<rparr>
                        else
                          s\<lparr> completedTasks := Suc (completedTasks s),
                             settled := settled s @ [(task_id task, Resolve)] \<rparr>
                    | None \<Rightarrow>
                        s\<lparr> completedTasks := Suc (completedTasks s),
                           settled := settled s @ [(task_id task, Resolve)] \<rparr>);
              s2 = s1\<lparr> taskQueue := filter (\<lambda>t. task_id t \<noteq> taskId) (taskQueue s1),
                       idleWorkers := idleWorkers s1 @ [worker] \<rparr>
          in processNextTask s2)"

text \<open>The callback armed by \<open>processNextTask\<close> for one task and one worker.\<close>

definition onTimeout :: "nat \<Rightarrow> worker \<Rightarrow> pool \<Rightarrow> pool" where
  "onTimeout taskId worker s =
     (case find (\<lambda>t. task_id t = taskId) (taskQueue s) of
        None \<Rightarrow> s
      | Some task \<Rightarrow>
          handleWorkerError worker
            (s\<lparr> taskQueue := remove1 task (taskQueue s),
                failedTasks := Suc (failedTasks s),
                settled := settled s @ [(task_id task, Reject ''Task timeout'')] \<rparr>))"

definition getMetrics :: "pool \<Rightarrow> WorkerMetrics" where
  "getMetrics s =
     \<lparr> activeWorkers = int (length (workers s)) - int (length (idleWorkers s)),
       idleCount = length (idleWorkers s),
       completedCount = completedTasks s,
       failedCount = failedTasks s \<rparr>"

text \<open>
  \<open>shutdown\<close> polls until the queue is empty, then calls \<open>terminate\<close> on every element
  of \<open>workers\<close> and clears both lists. \<open>None\<close>: the polling loop is still waiting.
\<close>

definition shutdown :: "pool \<Rightarrow> pool option" where
  "shutdown s =
     (if taskQueue s \<noteq> [] then None
      else Some ((fold terminate (workers s) s)\<lparr> workers := [], idleWorkers := [] \<rparr>))"

text \<open>
  The constructor: options resolved, empty fields, then \<open>initialize\<close> creates
  \<open>minWorkers\<close> workers (the first before the constructor returns, the others in
  microtasks that run before any event is delivered).
\<close>

definition empty_pool :: "WorkerPoolOptions \<Rightarrow> pool" where
  "empty_pool opts =
     \<lparr> options = resolve_options opts, workers = [], idleWorkers = [], taskQueue = [],
       workerScripts = (\<lambda>_. None), completedTasks = 0, failedTasks = 0,
       spawned = 0, alive = [], posted = [], timers = [], issued = 0, settled = [] \<rparr>"

primrec initialize :: "nat \<Rightarrow> pool \<Rightarrow> pool" where
  "initialize 0 s = s"
| "initialize (Suc n) s = initialize n (createWorker s)"

definition WorkerPool :: "WorkerPoolOptions \<Rightarrow> pool" where
  "WorkerPool opts = initialize (minWorkers (resolve_options opts)) (empty_pool opts)"

text \<open>
  What can happen to a pool: a call of a public method, or an event from outside. A reply
  arrives only from a worker that was posted that task; a timer fires only once it was
  armed. Errors and exits may come from any worker; the thread of that worker has
  stopped by then, which \<open>terminate\<close> records. \<open>Cleanup\<close> is the periodic sweep armed
  by \<open>initialize\<close>.
\<close>

datatype event =
    Register string string
  | Execute string
  | Message worker nat "string option"
  | Timeout nat worker
  | WorkerError worker
  | WorkerExit worker
  | Cleanup
  | Shutdown

fun step :: "pool \<Rightarrow> event \<Rightarrow> pool" where
  "step s (Register ty scriptPath) = registerWorkerScript ty scriptPath s"
| "step s (Execute ty) = executeTask ty s"
| "step s (Message w taskId err) =
     (if (w, taskId) \<in> set (posted s)
      then onMessage w taskId err (s\<lparr> posted := remove1 (w, taskId) (posted s) \<rparr>)
      else s)"
| "step s (Timeout taskId w) =
     (if (taskId, w) \<in> set (timers s)
      then onTimeout taskId w (s\<lparr> timers := remove1 (taskId, w) (timers s) \<rparr>)
      else s)"
| "step s (WorkerError w) = handleWorkerError w (terminate w s)"
| "step s (WorkerExit w) = handleWorkerExit w (terminate w s)"
| "step s Cleanup = cleanupIdleWorkers s"
| "step s Shutdown = (case shutdown s of None \<Rightarrow> s | Some s' \<Rightarrow> s')"

definition run :: "event list \<Rightarrow> pool \<Rightarrow> pool" where
  "run evs s = foldl step s evs"

definition busyWorkers :: "pool \<Rightarrow> worker list" where
  "busyWorkers s = remdups (map fst (posted s))"

text \<open>
  What the pool keeps true about its idle list: the idle workers are distinct, none of
  them has a posted task it has not answered, and no worker has two such tasks.
\<close>

definition idle_inv :: "pool \<Rightarrow> bool" where
  "idle_inv s \<longleftrightarrow>
     distinct (idleWorkers s) \<and> distinct (map fst (posted s))
     \<and> list_all (\<lambda>w. w < spawned s \<and> w \<notin> fst ` set (posted s)) (idleWorkers s)
     \<and> list_all (\<lambda>p. fst p < spawned s) (posted s)"

text \<open>Two configurations used below: the smallest pool, and the defaults.\<close>

definition tiny_pool :: WorkerPoolOptions where
  "tiny_pool = \<lparr> opt_minWorkers = Some 1, opt_maxWorkers = Some 1, opt_idleTimeout = None, opt_taskTimeout = None \<rparr>"

definition default_pool :: WorkerPoolOptions where
  "default_pool = \<lparr> opt_minWorkers = None, opt_maxWorkers = None, opt_idleTimeout = None, opt_taskTimeout = None \<rparr>"

section \<open>Batch processor (src/lib/youtube/batchProcessor.ts)\<close>

text \<open>
  \<open>process(items, processor, batchId)\<close> keeps one metrics object per batch id in a map.
  The processor is a function of the caller; the model takes its behaviour as
  \<open>processor item n\<close>: whether the call number \<open>n\<close> (from 0) on \<open>item\<close> settles
  with success. A processor that never settles is not modelled. Options written
  \<open>options.x ?? d\<close> take the default only when the caller left them out: \<open>0\<close> is kept.

  The calls of \<open>setTimeout\<close> made while retrying are logged in \<open>waits\<close>, in
  milliseconds. The items of one \<open>Promise.all\<close> run interleaved; their counter
  increments commute, so the model runs them one after the other. When one of them
  rejects, \<open>Promise.all\<close> rejects at once and the others go on in the background: the
  counters the model returns with \<open>Rejected\<close> are those reached once every item that was
  started has settled.
\<close>

datatype promise = Fulfilled | Rejected

record BatchProcessorOptions =
  opt_batchSize :: "nat option"
  opt_maxRetries :: "nat option"
  opt_retryDelay :: "nat option"
  opt_maxConcurrent :: "nat option"

record BatchProcessor =
  batchSize :: nat
  maxRetries :: nat
  retryDelay :: nat
  maxConcurrent :: nat

record ProcessingMetrics =
  totalItems :: nat
  processedItems :: nat
  failedItems :: nat
  retries :: nat
  startTime :: int
  endTime :: "int option"

record batch_state =
  metrics :: "string \<Rightarrow> ProcessingMetrics option"
  waits :: "nat list"

definition nullish :: "nat option \<Rightarrow> nat \<Rightarrow> nat" where
  "nullish v d = (case v of None \<Rightarrow> d | Some n \<Rightarrow> n)"

definition new_BatchProcessor :: "BatchProcessorOptions \<Rightarrow> BatchProcessor" where
  "new_BatchProcessor opts =
     \<lparr> batchSize = nullish (opt_batchSize opts) 10,
       maxRetries = nullish (opt_maxRetries opts) 3,
       retryDelay = nullish (opt_retryDelay opts) 1000,
       maxConcurrent = nullish (opt_maxConcurrent opts) 5 \<rparr>"

text \<open>
  \<open>const metrics = this.metrics.get(batchId); if (metrics) { ... }\<close>: the object found
  under the id is changed in place; without one nothing happens.
\<close>

definition with_metrics ::
  "string \<Rightarrow> (ProcessingMetrics \<Rightarrow> ProcessingMetrics) \<Rightarrow> batch_state \<Rightarrow> batch_state" where
  "with_metrics batchId f st =
     (case metrics st batchId of
        None \<Rightarrow> st
      | Some m \<Rightarrow> st\<lparr> metrics := (metrics st)(batchId \<mapsto> f m) \<rparr>)"

function processWithRetry ::
  "BatchProcessor \<Rightarrow> ('a \<Rightarrow> nat \<Rightarrow> bool) \<Rightarrow> string \<Rightarrow> 'a \<Rightarrow> nat \<Rightarrow> batch_state
     \<Rightarrow> promise \<times> batch_state" where
  "processWithRetry bp processor batchId item retryCount st =
     (if processor item retryCount then
        (Fulfilled, with_metrics batchId (\<lambda>m. m\<lparr> processedItems := processedItems m + 1 \<rparr>) st)
      else if retryCount < maxRetries bp then
        processWithRetry bp processor batchId item (retryCount + 1)
          ((with_metrics batchId (\<lambda>m. m\<lparr> retries := retries m + 1 \<rparr>) st)
             \<lparr> waits := waits st @ [retryDelay bp] \<rparr>)
      else
        (Rejected, with_metrics batchId (\<lambda>m. m\<lparr> failedItems := failedItems m + 1 \<rparr>) st))"
  by pat_completeness auto
termination
  by (relation "measure (\<lambda>(bp, processor, batchId, item, retryCount, st). maxRetries bp - retryCount)")
     auto

declare processWithRetry.simps [simp del]

definition all_settled :: "promise \<Rightarrow> promise \<Rightarrow> promise" where
  "all_settled a b = (if a = Fulfilled \<and> b = Fulfilled then Fulfilled else Rejected)"

fun processBatch ::
  "BatchProcessor \<Rightarrow> ('a \<Rightarrow> nat \<Rightarrow> bool) \<Rightarrow> string \<Rightarrow> 'a list \<Rightarrow> batch_state
     \<Rightarrow> promise \<times> batch_state" where
  "processBatch bp processor batchId [] st = (Fulfilled, st)"
| "processBatch bp processor batchId (item # batch) st =
     (case processWithRetry bp processor batchId item 0 st of
        (r1, st1) \<Rightarrow>
          (case processBatch bp processor batchId batch st1 of
             (r2, st2) \<Rightarrow> (all_settled r1 r2, st2)))"

text \<open>
  \<open>createBatches\<close>: \<open>for (let i = 0; i < items.length; i += this.batchSize)\<close>. With
  \<open>batchSize = 0\<close> and a non-empty collection the loop never ends.
\<close>

partial_function (option) createBatches_loop ::
  "nat \<Rightarrow> 'a list \<Rightarrow> nat \<Rightarrow> 'a list list \<Rightarrow> 'a list list option" where
  "createBatches_loop bsize items i batches =
     (if i < length items
      then createBatches_loop bsize items (i + bsize) (batches @ [take bsize (drop i items)])
      else Some batches)"

definition createBatches :: "BatchProcessor \<Rightarrow> 'a list \<Rightarrow> 'a list list option" where
  "createBatches bp items = createBatches_loop (batchSize bp) items 0 []"

text \<open>One \<open>Promise.all\<close> over the batches of a round.\<close>

fun process_round ::
  "BatchProcessor \<Rightarrow> ('a \<Rightarrow> nat \<Rightarrow> bool) \<Rightarrow> string \<Rightarrow> 'a list list \<Rightarrow> batch_state
     \<Rightarrow> promise \<times> batch_state" where
  "process_round bp processor batchId [] st = (Fulfilled, st)"
| "process_round bp processor batchId (batch # currentBatches) st =
     (case processBatch bp processor batchId batch st of
        (r1, st1) \<Rightarrow>
          (case process_round bp processor batchId currentBatches st1 of
             (r2, st2) \<Rightarrow> (all_settled r1 r2, st2)))"

text \<open>
  The loop of \<open>process\<close>: \<open>for (let i = 0; i < batches.length; i += this.maxConcurrent)\<close>,
  each round awaited; a rejected round throws out of the loop. With
  \<open>maxConcurrent = 0\<close> and at least one batch the loop never ends.
\<close>

partial_function (option) process_loop ::
  "BatchProcessor \<Rightarrow> ('a \<Rightarrow> nat \<Rightarrow> bool) \<Rightarrow> string \<Rightarrow> 'a list list \<Rightarrow> nat \<Rightarrow> batch_state
     \<Rightarrow> (promise \<times> batch_state) option" where
  "process_loop bp processor batchId batches i st =
     (if i < length batches then
        (case process_round bp processor batchId (take (maxConcurrent bp) (drop i batches)) st of
           (Rejected, st1) \<Rightarrow> Some (Rejected, st1)
         | (Fulfilled, st1) \<Rightarrow>
             process_loop bp processor batchId batches (i + maxConcurrent bp) st1)
      else Some (Fulfilled, st))"

text \<open>
  \<open>process\<close>: \<open>now0\<close> and \<open>now1\<close> are the readings of \<open>Date.now()\<close> at the start and
  in the \<open>finally\<close> block. \<open>None\<close>: the call never settles.
\<close>

definition process ::
  "BatchProcessor \<Rightarrow> 'a list \<Rightarrow> ('a \<Rightarrow> nat \<Rightarrow> bool) \<Rightarrow> string \<Rightarrow> int \<Rightarrow> int \<Rightarrow> batch_state
     \<Rightarrow> (promise \<times> batch_state) option" where
  "process bp items processor batchId now0 now1 st =
     (let st0 = st\<lparr> metrics := (metrics st)(batchId \<mapsto>
                   \<lparr> totalItems = length items, processedItems = 0, failedItems = 0,
                     retries = 0, startTime = now0, endTime = None \<rparr>) \<rparr>
      in case createBatches bp items of
           None \<Rightarrow> None
         | Some batches \<Rightarrow>
             (case process_loop bp processor batchId batches 0 st0 of
                None \<Rightarrow> None
              | Some (r, st1) \<Rightarrow>
                  Some (r, with_metrics batchId (\<lambda>m. m\<lparr> endTime := Some now1 \<rparr>) st1)))"

definition getMetrics_batch :: "batch_state \<Rightarrow> string \<Rightarrow> ProcessingMetrics option" where
  "getMetrics_batch st batchId = metrics st batchId"

definition clearMetrics :: "string \<Rightarrow> batch_state \<Rightarrow> batch_state" where
  "clearMetrics batchId st = st\<lparr> metrics := (metrics st)(batchId := None) \<rparr>"

definition no_runs :: batch_state where
  "no_runs = \<lparr> metrics = (\<lambda>_. None), waits = [] \<rparr>"

definition one_run :: batch_state where
  "one_run = \<lparr> metrics = (\<lambda>_. None)(''run'' \<mapsto>
                 \<lparr> totalItems = 1, processedItems = 0, failedItems = 0, retries = 0,
                   startTime = 0, endTime = None \<rparr>),
               waits = [] \<rparr>"

text \<open>
  What a processor does with an item over the attempts the retry allows: it succeeds at
  some call from \<open>from\<close> to \<open>maxRetries\<close>, or at none.
\<close>

definition succeeds_from :: "BatchProcessor \<Rightarrow> ('a \<Rightarrow> nat \<Rightarrow> bool) \<Rightarrow> nat \<Rightarrow> 'a \<Rightarrow> bool" where
  "succeeds_from bp processor from item =
     list_ex (processor item) [from ..< Suc (maxRetries bp)]"

text \<open>
  Two configurations used below (the defaults, and one item per batch with one batch per
  round), and the three counters of a run as a triple
  \<open>(totalItems, processedItems, failedItems)\<close>.
\<close>

definition strict_bp :: BatchProcessor where
  "strict_bp = \<lparr> batchSize = 1, maxRetries = 3, retryDelay = 1000, maxConcurrent = 1 \<rparr>"

definition default_batch_options :: BatchProcessorOptions where
  "default_batch_options = \<lparr> opt_batchSize = None, opt_maxRetries = None, opt_retryDelay = None, opt_maxConcurrent = None \<rparr>"

definition counters :: "(promise \<times> batch_state) option \<Rightarrow> string \<Rightarrow> (promise \<times> (nat \<times> nat \<times> nat) option) option" where
  "counters res batchId =
     map_option (\<lambda>(r, st). (r, map_option (\<lambda>m. (totalItems m, processedItems m, failedItems m))
                                   (metrics st batchId))) res"

text \<open>
  Three processors: one that fails on every call, one that fails on every call for the
  item \<open>1\<close> and succeeds for every other item, and one that fails twice on each item
  and then succeeds. \<open>waited\<close> reads the result of a run and its log of waits.
\<close>

definition always_fails :: "nat \<Rightarrow> nat \<Rightarrow> bool" where
  "always_fails item n = False"

definition fails_on_item_1 :: "nat \<Rightarrow> nat \<Rightarrow> bool" where
  "fails_on_item_1 item n = (item \<noteq> 1)"

definition fails_twice :: "nat \<Rightarrow> nat \<Rightarrow> bool" where
  "fails_twice item n = (2 \<le> n)"

definition waited :: "(promise \<times> batch_state) option \<Rightarrow> (promise \<times> nat list) option" where
  "waited res = map_option (\<lambda>(r, st). (r, waits st)) res"

section \<open>Document batch processor (chunk path with its own retry)\<close>

text \<open>
  A second class of the same name drives text chunks through \<open>vectorStorage.addDocument\<close>.
  Its options are resolved with \<open>||\<close> in the constructor and again where they are read.
  \<open>addDocument chunk n\<close>: whether call number \<open>n\<close> on the chunk succeeds. The two
  time fields of its metrics are readings of a floating-point clock and are left out.
\<close>

record ChunkOptions =
  chunk_maxRetries :: nat
  chunk_retryDelay :: nat

record ChunkMetrics =
  totalChunks :: nat
  processedChunks :: nat
  failedChunks :: nat
  retryCount_metric :: nat

record chunk_state =
  chunk_metrics :: ChunkMetrics
  chunk_waits :: "nat list"

definition new_ChunkOptions :: "nat option \<Rightarrow> nat option \<Rightarrow> ChunkOptions" where
  "new_ChunkOptions maxRetries_opt retryDelay_opt =
     \<lparr> chunk_maxRetries = or_default maxRetries_opt 3,
       chunk_retryDelay = or_default retryDelay_opt 1000 \<rparr>"

function processChunkWithRetry ::
  "ChunkOptions \<Rightarrow> ('c \<Rightarrow> nat \<Rightarrow> bool) \<Rightarrow> 'c \<Rightarrow> nat \<Rightarrow> chunk_state \<Rightarrow> bool \<times> chunk_state" where
  "processChunkWithRetry opts addDocument chunk retryCount st =
     (if addDocument chunk retryCount then
        (True, st\<lparr> chunk_metrics := (chunk_metrics st)
                      \<lparr> processedChunks := processedChunks (chunk_metrics st) + 1 \<rparr> \<rparr>)
      else if retryCount < or_default (Some (chunk_maxRetries opts)) 3 then
        processChunkWithRetry opts addDocument chunk (retryCount + 1)
          (st\<lparr> chunk_waits := chunk_waits st @
                  [or_default (Some (chunk_retryDelay opts)) 1000 * 2 ^ retryCount] \<rparr>)
      else
        (False, st\<lparr> chunk_metrics := (chunk_metrics st)
                       \<lparr> failedChunks := failedChunks (chunk_metrics st) + 1 \<rparr> \<rparr>))"
  by pat_completeness auto
termination
  by (relation "measure (\<lambda>(opts, addDocument, chunk, retryCount, st).
        or_default (Some (chunk_maxRetries opts)) 3 - retryCount)")
     auto

declare processChunkWithRetry.simps [simp del]

definition default_chunk_options :: ChunkOptions where
  "default_chunk_options = new_ChunkOptions None None"

definition no_chunks :: chunk_state where
  "no_chunks = \<lparr> chunk_metrics = \<lparr> totalChunks = 0, processedChunks = 0, failedChunks = 0,
                                   retryCount_metric = 0 \<rparr>,
                 chunk_waits = [] \<rparr>"

section \<open>Cache (the key/value cache with TTL and a size limit)\<close>

text \<open>
  The class keeps a JavaScript \<open>Map\<close>, which iterates in insertion order and keeps the
  position of a key that is set again: an association list with distinct keys, changed
  with \<open>AList.update\<close> and \<open>AList.delete\<close>. \<open>Date.now()\<close> is an argument. Options
  written \<open>options.x ?? d\<close> keep a \<open>0\<close> or a \<open>false\<close> the caller passed.
\<close>

record CacheOptions =
  opt_enabled :: "bool option"
  opt_maxSize :: "nat option"
  opt_ttl :: "int option"

record 'v CacheEntry =
  entry_value :: 'v
  timestamp :: int

record 'v Cache =
  cache :: "(string \<times> 'v CacheEntry) list"
  enabled :: bool
  maxSize :: nat
  ttl :: int

definition new_Cache :: "CacheOptions \<Rightarrow> 'v Cache" where
  "new_Cache opts =
     \<lparr> cache = [],
       enabled = (case opt_enabled opts of None \<Rightarrow> True | Some b \<Rightarrow> b),
       maxSize = nullish (opt_maxSize opts) 1000,
       ttl = (case opt_ttl opts of None \<Rightarrow> 24 * 60 * 60 * 1000 | Some t \<Rightarrow> t) \<rparr>"

definition cache_get :: "int \<Rightarrow> string \<Rightarrow> 'v Cache \<Rightarrow> 'v option \<times> 'v Cache" where
  "cache_get now key c =
     (if \<not> enabled c then (None, c)
      else case map_of (cache c) key of
             None \<Rightarrow> (None, c)
           | Some entry \<Rightarrow>
               if now - timestamp entry > ttl c
               then (None, c\<lparr> cache := AList.delete key (cache c) \<rparr>)
               else (Some (entry_value entry), c))"

text \<open>
  The loop of \<open>set\<close>: \<open>while (this.cache.size >= this.maxSize)\<close> delete the first key of
  the map. On an empty map the first key is \<open>undefined\<close> and the delete does nothing:
  with \<open>maxSize = 0\<close> the loop never ends.
\<close>

partial_function (option) evict_oldest ::
  "nat \<Rightarrow> (string \<times> 'v CacheEntry) list \<Rightarrow> (string \<times> 'v CacheEntry) list option" where
  "evict_oldest limit es =
     (if length es \<ge> limit
      then evict_oldest limit
             (case es of [] \<Rightarrow> [] | (oldestKey, _) # _ \<Rightarrow> AList.delete oldestKey es)
      else Some es)"

definition cache_set :: "int \<Rightarrow> string \<Rightarrow> 'v \<Rightarrow> 'v Cache \<Rightarrow> 'v Cache option" where
  "cache_set now key v c =
     (if \<not> enabled c then Some c
      else case evict_oldest (maxSize c) (cache c) of
             None \<Rightarrow> None
           | Some es \<Rightarrow>
               Some (c\<lparr> cache := AList.update key \<lparr> entry_value = v, timestamp = now \<rparr> es \<rparr>))"

definition cache_delete :: "string \<Rightarrow> 'v Cache \<Rightarrow> 'v Cache" where
  "cache_delete key c = c\<lparr> cache := AList.delete key (cache c) \<rparr>"

definition cache_clear :: "'v Cache \<Rightarrow> 'v Cache" where
  "cache_clear c = c\<lparr> cache := [] \<rparr>"

definition cleanup :: "int \<Rightarrow> 'v Cache \<Rightarrow> 'v Cache" where
  "cleanup now c =
     c\<lparr> cache := filter (\<lambda>(key, entry). \<not> now - timestamp entry > ttl c) (cache c) \<rparr>"

text \<open>
  \<open>set\<close> followed by \<open>get\<close> of the same key, and the keys a cache holds after a \<open>set\<close>.
\<close>

definition set_then_get :: "int \<Rightarrow> int \<Rightarrow> string \<Rightarrow> 'v \<Rightarrow> 'v Cache \<Rightarrow> 'v option option" where
  "set_then_get t0 t1 key v c =
     (case cache_set t0 key v c of
        None \<Rightarrow> None
      | Some c' \<Rightarrow> Some (fst (cache_get t1 key c')))"

definition keys_after_set :: "int \<Rightarrow> string \<Rightarrow> 'v \<Rightarrow> 'v Cache \<Rightarrow> string list option" where
  "keys_after_set now key v c =
     (case cache_set now key v c of
        None \<Rightarrow> None
      | Some c' \<Rightarrow> Some (map fst (cache c')))"

text \<open>A cache switched off, a cache with room for three entries, and the same when full.\<close>

definition disabled_cache :: "nat Cache" where
  "disabled_cache = new_Cache \<lparr> opt_enabled = Some False, opt_maxSize = None, opt_ttl = None \<rparr>"

definition small_cache :: "nat Cache" where
  "small_cache = new_Cache \<lparr> opt_enabled = None, opt_maxSize = Some 3, opt_ttl = Some 1000 \<rparr>"

definition full_small_cache :: "nat Cache" where
  "full_small_cache =
     small_cache\<lparr> cache := [(''a'', \<lparr> entry_value = 1, timestamp = 1 \<rparr>),
                            (''b'', \<lparr> entry_value = 2, timestamp = 2 \<rparr>),
                            (''c'', \<lparr> entry_value = 3, timestamp = 3 \<rparr>)] \<rparr>"

section \<open>Cache manager (the query cache over the node-cache store)\<close>

text \<open>
  \<open>CacheManager\<close> wraps a store of the node-cache library. The store is an association
  list in insertion order; as far as the class uses it: \<open>get\<close> returns the value or
  \<open>undefined\<close>, \<open>set\<close> throws \<open>ECACHEFULL\<close> when the store already holds \<open>maxKeys\<close> keys,
  \<open>del\<close> removes a key, \<open>keys\<close> lists the keys. Expiry inside the store is not
  modelled: the entries are taken as not yet expired.

  The store holds two kinds of values, both written by \<open>get\<close> of the class: the fetched
  value under the key, and a metadata object with the fields \<open>_accessCount\<close>, \<open>_createdAt\<close>,
  \<open>query\<close>, \<open>filters\<close> under the key with the suffix \<open>_metadata\<close>. A fetched value is taken
  to have no \<open>_accessCount\<close> field of its own.

  The key is \<open>sha256(JSON.stringify({query, filters}))\<close>. \<open>JSON.stringify\<close> throws a
  \<open>TypeError\<close> on a \<open>BigInt\<close>; the digest of a value that can be serialized is the
  parameter \<open>digest\<close>. The access-time metric reads a floating-point clock and is left out.
\<close>

datatype jsvalue =
    JUndefined
  | JNull
  | JBool bool
  | JNumber int
  | JString string
  | JBigInt int
  | JArray "jsvalue list"
  | JObject "(string \<times> jsvalue) list"

fun serializable :: "jsvalue \<Rightarrow> bool" where
  "serializable (JBigInt n) = False"
| "serializable (JArray xs) = list_all serializable xs"
| "serializable (JObject props) = list_all serializable (map snd props)"
| "serializable v = True"

datatype cache_error = TypeError | ECACHEFULL | FetchFailed

datatype 'v stored = Fetched 'v | Metadata nat int string jsvalue

record 'v CacheManager =
  nc_cache :: "(string \<times> 'v stored) list"
  maxKeys :: nat
  hits :: nat
  misses :: nat
  queries :: nat

definition new_CacheManager :: "nat option \<Rightarrow> 'v CacheManager" where
  "new_CacheManager maxKeys_opt =
     \<lparr> nc_cache = [], maxKeys = or_default maxKeys_opt 1000,
       hits = 0, misses = 0, queries = 0 \<rparr>"

definition nc_get :: "string \<Rightarrow> 'v CacheManager \<Rightarrow> 'v stored option" where
  "nc_get key cm = map_of (nc_cache cm) key"

definition nc_set :: "string \<Rightarrow> 'v stored \<Rightarrow> 'v CacheManager \<Rightarrow> cache_error + 'v CacheManager" where
  "nc_set key v cm =
     (if length (nc_cache cm) \<ge> maxKeys cm then Inl ECACHEFULL
      else Inr (cm\<lparr> nc_cache := AList.update key v (nc_cache cm) \<rparr>))"

definition generateKey :: "(string \<Rightarrow> jsvalue \<Rightarrow> string) \<Rightarrow> string \<Rightarrow> jsvalue \<Rightarrow> cache_error + string" where
  "generateKey digest query filters =
     (if serializable filters then Inr (digest query filters) else Inl TypeError)"

definition updateMetrics :: "'v CacheManager \<Rightarrow> 'v CacheManager" where
  "updateMetrics cm = cm\<lparr> queries := queries cm + 1 \<rparr>"

text \<open>
  The body of the \<open>try\<close> block of \<open>get\<close>. \<open>Inl (e, cm)\<close>: \<open>e\<close> was thrown, with the
  manager as it was at that point. \<open>fetchFunction\<close> is \<open>None\<close> when the caller passed
  none, \<open>Some (Inl e)\<close> when it throws, \<open>Some (Inr v)\<close> when it returns \<open>v\<close>.
\<close>

definition get_try ::
  "string \<Rightarrow> int \<Rightarrow> string \<Rightarrow> jsvalue \<Rightarrow> (cache_error + 'v) option \<Rightarrow> 'v CacheManager
     \<Rightarrow> (cache_error \<times> 'v CacheManager) + ('v stored option \<times> 'v CacheManager)" where
  "get_try key now query filters fetchFunction cm =
     (case nc_get key cm of
        Some v \<Rightarrow>
          (case (case nc_get (key @ ''_metadata'') cm of
                   None \<Rightarrow> Inr cm
                 | Some (Metadata n created q f) \<Rightarrow>
                     nc_set (key @ ''_metadata'') (Metadata (n + 1) created q f) cm
                 | Some (Fetched w) \<Rightarrow>
                     nc_set (key @ ''_metadata'') (Fetched w) cm) of
             Inl e \<Rightarrow> Inl (e, cm)
           | Inr cm1 \<Rightarrow> Inr (Some v, updateMetrics (cm1\<lparr> hits := hits cm1 + 1 \<rparr>)))
      | None \<Rightarrow>
          (let cm1 = cm\<lparr> misses := misses cm + 1 \<rparr>
           in case fetchFunction of
                None \<Rightarrow> Inr (None, updateMetrics cm1)
              | Some (Inl e) \<Rightarrow> Inl (e, cm1)
              | Some (Inr v) \<Rightarrow>
                  (case nc_set key (Fetched v) cm1 of
                     Inl e \<Rightarrow> Inl (e, cm1)
                   | Inr cm2 \<Rightarrow>
                       (case nc_set (key @ ''_metadata'') (Metadata 1 now query filters) cm2 of
                          Inl e \<Rightarrow> Inl (e, cm2)
                        | Inr cm3 \<Rightarrow> Inr (Some (Fetched v), updateMetrics cm3)))))"

text \<open>
  \<open>get\<close>: the key is generated before the \<open>try\<close> block, so what \<open>generateKey\<close> throws
  reaches the caller (\<open>Inl\<close>). What the \<open>try\<close> block throws is caught: the result is
  \<open>null\<close> (\<open>None\<close>).
\<close>

definition CacheManager_get ::
  "(string \<Rightarrow> jsvalue \<Rightarrow> string) \<Rightarrow> int \<Rightarrow> string \<Rightarrow> jsvalue \<Rightarrow> (cache_error + 'v) option
     \<Rightarrow> 'v CacheManager \<Rightarrow> cache_error + ('v stored option \<times> 'v CacheManager)" where
  "CacheManager_get digest now query filters fetchFunction cm =
     (case generateKey digest query filters of
        Inl e \<Rightarrow> Inl e
      | Inr key \<Rightarrow>
          (case get_try key now query filters fetchFunction cm of
             Inl (e, cm1) \<Rightarrow> Inr (None, updateMetrics cm1)
           | Inr res \<Rightarrow> Inr res))"

text \<open>
  \<open>cleanCache\<close>. \<open>accessPatterns\<close> collects, in key order, the keys whose value is truthy
  and has a truthy \<open>_accessCount\<close>; they are sorted by count (the sort is stable) and the
  first \<open>floor(length * 0.3)\<close> of them are deleted. The two products with \<open>0.7\<close> and
  \<open>0.3\<close> are taken exactly, as \<open>7 * n / 10\<close> and \<open>3 * n / 10\<close>. The source computes
  them in double precision: the floor of the second is the same, and the comparison with
  the first can differ only when the number of keys is exactly \<open>7 * maxKeys / 10\<close>.
\<close>

definition accessCountOf :: "'v stored \<Rightarrow> nat" where
  "accessCountOf v = (case v of Fetched w \<Rightarrow> 0 | Metadata n created q f \<Rightarrow> n)"

definition accessPatterns :: "(string \<times> 'v stored) list \<Rightarrow> (string \<times> nat) list" where
  "accessPatterns store =
     filter (\<lambda>(key, n). n \<noteq> 0) (map (\<lambda>(key, v). (key, accessCountOf v)) store)"

definition sortedKeys :: "(string \<times> 'v stored) list \<Rightarrow> string list" where
  "sortedKeys store = map fst (sort_key snd (accessPatterns store))"

definition removeCount :: "(string \<times> 'v stored) list \<Rightarrow> nat" where
  "removeCount store = (3 * length (sortedKeys store)) div 10"

definition cleanCache :: "'v CacheManager \<Rightarrow> 'v CacheManager" where
  "cleanCache cm =
     (if 10 * length (nc_cache cm) \<le> 7 * or_default (Some (maxKeys cm)) 1000 then cm
      else cm\<lparr> nc_cache :=
                 foldl (\<lambda>store key. AList.delete key store) (nc_cache cm)
                   (take (removeCount (nc_cache cm)) (sortedKeys (nc_cache cm))) \<rparr>)"

text \<open>
  A manager with \<open>maxKeys = 10\<close> that is full: five lookups, each with its value and its
  metadata; the lookups were read 1, 2, 3, 4 and 5 times.
\<close>

definition full_manager :: "nat CacheManager" where
  "full_manager =
     \<lparr> nc_cache =
         [(''a'', Fetched 10), (''a_metadata'', Metadata 5 0 ''qa'' JUndefined),
          (''b'', Fetched 20), (''b_metadata'', Metadata 1 0 ''qb'' JUndefined),
          (''c'', Fetched 30), (''c_metadata'', Metadata 4 0 ''qc'' JUndefined),
          (''d'', Fetched 40), (''d_metadata'', Metadata 2 0 ''qd'' JUndefined),
          (''e'', Fetched 50), (''e_metadata'', Metadata 3 0 ''qe'' JUndefined)],
       maxKeys = 10, hits = 0, misses = 0, queries = 0 \<rparr>"

section \<open>Properties of the worker pool\<close>

subsection \<open>The \<open>workers\<close> list stays empty\<close>

lemma workers_createWorker: "workers (createWorker s) = workers s"
  by (simp add: createWorker_def)

lemma workers_processNextTask: "workers (processNextTask s) = workers s"
  by (simp add: processNextTask_def Let_def split: option.splits)

lemma workers_removeWorker: "workers s = [] \<Longrightarrow> workers (removeWorker w s) = []"
  by (simp add: removeWorker_def)

lemma workers_terminate: "workers (terminate w s) = workers s"
  by (simp add: terminate_def)

lemma workers_executeTask: "workers (executeTask ty s) = workers s"
  by (simp add: executeTask_def Let_def workers_processNextTask workers_createWorker)

lemma workers_onMessage: "workers (onMessage w taskId err s) = workers s"
  by (simp add: onMessage_def Let_def workers_processNextTask split: option.splits)

lemma workers_onTimeout: "workers s = [] \<Longrightarrow> workers (onTimeout taskId w s) = []"
  by (simp add: onTimeout_def handleWorkerError_def workers_createWorker removeWorker_def
      split: option.splits)

lemma cleanup_no_workers: "workers s = [] \<Longrightarrow> cleanupIdleWorkers s = s"
  by (simp add: cleanupIdleWorkers.simps)

lemma workers_shutdown: "shutdown s = Some s' \<Longrightarrow> workers s' = []"
  by (auto simp: shutdown_def split: if_splits)

lemma workers_step: "workers s = [] \<Longrightarrow> workers (step s e) = []"
proof (cases e)
  case (Register ty p)
  assume "workers s = []"
  then show ?thesis using Register by (simp add: registerWorkerScript_def)
next
  case (Execute ty)
  assume "workers s = []"
  then show ?thesis using Execute by (simp add: workers_executeTask)
next
  case (Message w taskId err)
  assume "workers s = []"
  then show ?thesis using Message by (simp add: workers_onMessage)
next
  case (Timeout taskId w)
  assume "workers s = []"
  then show ?thesis using Timeout by (simp add: workers_onTimeout)
next
  case (WorkerError w)
  assume "workers s = []"
  then show ?thesis using WorkerError
    by (simp add: handleWorkerError_def workers_createWorker workers_removeWorker workers_terminate)
next
  case (WorkerExit w)
  assume "workers s = []"
  then show ?thesis using WorkerExit
    by (simp add: handleWorkerExit_def Let_def workers_createWorker workers_removeWorker
        workers_terminate)
next
  case Cleanup
  assume "workers s = []"
  then show ?thesis using Cleanup by (simp add: cleanup_no_workers)
next
  case Shutdown
  assume "workers s = []"
  then show ?thesis using Shutdown by (auto split: option.splits dest: workers_shutdown)
qed

lemma workers_foldl_step: "workers s = [] \<Longrightarrow> workers (foldl step s evs) = []"
  by (induction evs arbitrary: s) (simp_all add: workers_step)

lemma workers_initialize: "workers (initialize n s) = workers s"
  by (induction n arbitrary: s) (simp_all add: workers_createWorker)

lemma workers_WorkerPool: "workers (WorkerPool opts) = []"
  by (simp add: WorkerPool_def workers_initialize empty_pool_def)

lemma workers_run: "workers (run evs (WorkerPool opts)) = []"
  by (simp add: run_def workers_foldl_step workers_WorkerPool)

lemma options_createWorker: "options (createWorker s) = options s"
  by (simp add: createWorker_def)

lemma options_processNextTask: "options (processNextTask s) = options s"
  by (simp add: processNextTask_def Let_def split: option.splits)

lemma or_default_pos: "0 < d \<Longrightarrow> 0 < or_default v d"
  by (simp add: or_default_def split: option.splits)

lemma maxWorkers_pos: "0 < maxWorkers (resolve_options opts)"
  by (simp add: resolve_options_def or_default_pos)

lemma options_removeWorker: "options (removeWorker w s) = options s"
  by (simp add: removeWorker_def)

lemma options_terminate: "options (terminate w s) = options s"
  by (simp add: terminate_def)

lemma options_fold_terminate: "options (fold terminate ws s) = options s"
  by (induction ws arbitrary: s) (simp_all add: options_terminate)

lemma options_step: "workers s = [] \<Longrightarrow> options (step s e) = options s"
  by (cases e)
     (simp_all add: registerWorkerScript_def executeTask_def Let_def options_processNextTask
        options_createWorker onMessage_def onTimeout_def handleWorkerError_def
        handleWorkerExit_def options_removeWorker options_terminate cleanup_no_workers
        shutdown_def options_fold_terminate
        split: option.splits)

lemma options_foldl_step:
  "workers s = [] \<Longrightarrow> options (foldl step s evs) = options s"
proof (induction evs arbitrary: s)
  case Nil
  then show ?case by simp
next
  case (Cons e evs)
  from Cons.prems have w: "workers (step s e) = []" by (rule workers_step)
  from Cons.IH [OF w] Cons.prems show ?case by (simp add: options_step)
qed

lemma options_initialize: "options (initialize n s) = options s"
  by (induction n arbitrary: s) (simp_all add: options_createWorker)

lemma options_run: "options (run evs (WorkerPool opts)) = resolve_options opts"
proof -
  have "options (run evs (WorkerPool opts)) = options (WorkerPool opts)"
    unfolding run_def using workers_WorkerPool by (rule options_foldl_step)
  also have "\<dots> = resolve_options opts"
    by (simp add: WorkerPool_def options_initialize empty_pool_def)
  finally show ?thesis .
qed

lemma spawned_processNextTask: "spawned (processNextTask s) = spawned s"
  by (simp add: processNextTask_def Let_def split: option.splits)

lemma executeTask_spawns:
  assumes "workers s = []" and "0 < maxWorkers (options s)"
  shows "spawned (executeTask ty s) = (if idleWorkers s = [] then Suc (spawned s) else spawned s)"
  using assms
  by (simp add: executeTask_def Let_def spawned_processNextTask createWorker_def)

text \<open>
  Claim C10. In every state the pool reaches from its constructor, through any sequence
  of method calls and events, the list \<open>workers\<close> is empty. Therefore the guard
  \<open>workers.length < maxWorkers\<close> of \<open>executeTask\<close> holds, \<open>executeTask\<close> creates a
  worker exactly when no worker is idle, \<open>cleanupIdleWorkers\<close> changes nothing, and
  \<open>getMetrics\<close> reports \<open>activeWorkers = 0 - idleWorkers.length\<close>, which is not
  positive.
\<close>

theorem workers_list_always_empty:
  "workers (run evs (WorkerPool opts)) = []
   \<and> length (workers (run evs (WorkerPool opts))) < maxWorkers (options (run evs (WorkerPool opts)))
   \<and> spawned (executeTask ty (run evs (WorkerPool opts))) =
       (if idleWorkers (run evs (WorkerPool opts)) = []
        then Suc (spawned (run evs (WorkerPool opts)))
        else spawned (run evs (WorkerPool opts)))
   \<and> cleanupIdleWorkers (run evs (WorkerPool opts)) = run evs (WorkerPool opts)
   \<and> activeWorkers (getMetrics (run evs (WorkerPool opts))) =
       - int (length (idleWorkers (run evs (WorkerPool opts))))
   \<and> activeWorkers (getMetrics (run evs (WorkerPool opts))) \<le> 0"
proof -
  let ?s = "run evs (WorkerPool opts)"
  have w: "workers ?s = []" by (rule workers_run)
  have m: "0 < maxWorkers (options ?s)" by (simp add: options_run maxWorkers_pos)
  have g: "length (workers ?s) < maxWorkers (options ?s)" using w m by simp
  have e: "spawned (executeTask ty ?s) =
             (if idleWorkers ?s = [] then Suc (spawned ?s) else spawned ?s)"
    using w m by (rule executeTask_spawns)
  have c: "cleanupIdleWorkers ?s = ?s" using w by (rule cleanup_no_workers)
  have a: "activeWorkers (getMetrics ?s) = - int (length (idleWorkers ?s))"
    using w by (simp add: getMetrics_def)
  from w g e c a show ?thesis by simp
qed

lemmas pool_eval =
  run_def WorkerPool_def resolve_options_def or_default_def empty_pool_def createWorker_def
  registerWorkerScript_def executeTask_def processNextTask_def busyWorkers_def Let_def
  tiny_pool_def default_pool_def shutdown_def terminate_def getMetrics_def numeral_2_eq_2

text \<open>
  Claim C1, evaluated on the code. A pool with \<open>minWorkers = maxWorkers = 1\<close> and a
  registered script receives two tasks. After the first, its one worker is busy and
  none is idle: the pool is at its maximum. The second submission still creates a
  worker, and two workers are busy at once.
\<close>

theorem busy_workers_exceed_maxWorkers:
  "maxWorkers (options (run [Register ''embed'' ''embed.js'', Execute ''embed''] (WorkerPool tiny_pool))) = 1
   \<and> alive (run [Register ''embed'' ''embed.js'', Execute ''embed''] (WorkerPool tiny_pool)) = [0]
   \<and> idleWorkers (run [Register ''embed'' ''embed.js'', Execute ''embed''] (WorkerPool tiny_pool)) = []
   \<and> alive (run [Register ''embed'' ''embed.js'', Execute ''embed'', Execute ''embed''] (WorkerPool tiny_pool)) = [0, 1]
   \<and> busyWorkers (run [Register ''embed'' ''embed.js'', Execute ''embed'', Execute ''embed''] (WorkerPool tiny_pool)) = [0, 1]"
  by (simp add: pool_eval)

text \<open>
  Claim C2, evaluated on the code. A default pool (two idle workers) receives two tasks.
  The first task, still at the head of the queue, is posted to both workers; the second
  task is posted to none.
\<close>

theorem head_task_dispatched_twice:
  "posted (run [Register ''embed'' ''embed.js'', Execute ''embed'', Execute ''embed''] (WorkerPool default_pool)) = [(1, 0), (0, 0)]
   \<and> map task_id (taskQueue (run [Register ''embed'' ''embed.js'', Execute ''embed'', Execute ''embed''] (WorkerPool default_pool))) = [0, 1]"
  by (simp add: pool_eval)

text \<open>
  Claim C9, evaluated on the code. \<open>shutdown\<close> on a fresh default pool with an empty
  queue completes, and both worker threads started by the constructor are still alive:
  \<open>terminate\<close> is called on the elements of \<open>workers\<close>, and there are none.
\<close>

theorem shutdown_terminates_no_worker:
  "map_option alive (shutdown (WorkerPool default_pool)) = Some [0, 1]
  \<and> alive (WorkerPool default_pool) = [0, 1]"
  by (simp add: pool_eval)

text \<open>
  \<open>shutdown\<close> stops no thread, in any state the pool reaches: every thread alive before
  it is alive after it.
\<close>

lemma shutdown_keeps_threads:
  "workers s = [] \<Longrightarrow> shutdown s = Some s' \<Longrightarrow> alive s' = alive s"
  by (auto simp: shutdown_def split: if_splits)

lemma shutdown_terminates_nobody:
  "shutdown (run evs (WorkerPool opts)) = Some s' \<Longrightarrow> alive s' = alive (run evs (WorkerPool opts))"
  using workers_run by (rule shutdown_keeps_threads)

subsection \<open>Idle workers are not executing\<close>

lemma last_notin_butlast: "distinct xs \<Longrightarrow> xs \<noteq> [] \<Longrightarrow> last xs \<notin> set (butlast xs)"
  by (metis append_butlast_last_id distinct_append disjoint_iff list.set_intros(1))

lemma fst_remove1_subset: "fst ` set (remove1 x xs) \<subseteq> fst ` set xs"
  using set_remove1_subset [of x xs] by (rule image_mono)

lemma distinct_map_fst_remove1:
  "distinct (map fst xs) \<Longrightarrow> distinct (map fst (remove1 x xs))"
proof (induction xs)
  case Nil
  then show ?case by simp
next
  case (Cons a xs)
  from Cons.prems have a: "fst a \<notin> fst ` set xs" and d: "distinct (map fst xs)" by simp_all
  from a fst_remove1_subset [of x xs] have "fst a \<notin> fst ` set (remove1 x xs)" by blast
  with d Cons.IH show ?case by simp
qed

lemma key_gone_after_remove1:
  "distinct (map fst xs) \<Longrightarrow> (k, v) \<in> set xs \<Longrightarrow> k \<notin> fst ` set (remove1 (k, v) xs)"
proof (induction xs)
  case Nil
  then show ?case by simp
next
  case (Cons a xs)
  from Cons.prems(1) have a: "fst a \<notin> fst ` set xs" and d: "distinct (map fst xs)" by simp_all
  show ?case
  proof (cases "a = (k, v)")
    case True
    with a show ?thesis by simp
  next
    case False
    with Cons.prems(2) have m: "(k, v) \<in> set xs" by simp
    then have "k \<in> fst ` set xs" by force
    with a have "fst a \<noteq> k" by blast
    with False Cons.IH [OF d m] show ?thesis by simp
  qed
qed

lemma idle_inv_iff:
  "idle_inv s \<longleftrightarrow>
     distinct (idleWorkers s) \<and> distinct (map fst (posted s))
     \<and> (\<forall>w \<in> set (idleWorkers s). w < spawned s \<and> w \<notin> fst ` set (posted s))
     \<and> (\<forall>p \<in> set (posted s). fst p < spawned s)"
  by (simp add: idle_inv_def list_all_iff)

lemma idle_inv_createWorker:
  assumes "idle_inv s" shows "idle_inv (createWorker s)"
proof -
  from assms have di: "distinct (idleWorkers s)" and dp: "distinct (map fst (posted s))"
    and iw: "\<forall>w \<in> set (idleWorkers s). w < spawned s \<and> w \<notin> fst ` set (posted s)"
    and pw: "\<forall>p \<in> set (posted s). fst p < spawned s"
    by (simp_all add: idle_inv_iff)
  have f: "idleWorkers (createWorker s) = idleWorkers s @ [spawned s]"
    "posted (createWorker s) = posted s" "spawned (createWorker s) = Suc (spawned s)"
    by (simp_all add: createWorker_def)
  have n1: "spawned s \<notin> set (idleWorkers s)" using iw by auto
  have n2: "spawned s \<notin> fst ` set (posted s)" using pw by auto
  have 1: "distinct (idleWorkers s @ [spawned s])" using di n1 by simp
  have 3: "\<forall>w \<in> set (idleWorkers s @ [spawned s]).
             w < Suc (spawned s) \<and> w \<notin> fst ` set (posted s)"
    using iw n2 by (auto simp: less_Suc_eq)
  have 4: "\<forall>p \<in> set (posted s). fst p < Suc (spawned s)"
    using pw by (auto simp: less_Suc_eq)
  show ?thesis unfolding idle_inv_iff f using 1 dp 3 4 by simp
qed

lemma idle_inv_processNextTask:
  assumes "idle_inv s" shows "idle_inv (processNextTask s)"
proof (cases "taskQueue s = [] \<or> idleWorkers s = []")
  case True
  then show ?thesis using assms by (simp add: processNextTask_def)
next
  case False
  then have ne: "idleWorkers s \<noteq> []" by simp
  from assms have d: "distinct (idleWorkers s)" by (simp add: idle_inv_iff)
  have l1: "last (idleWorkers s) \<in> set (idleWorkers s)" using ne by simp
  have l2: "last (idleWorkers s) \<notin> set (butlast (idleWorkers s))"
    using d ne by (rule last_notin_butlast)
  have sub: "set (butlast (idleWorkers s)) \<subseteq> set (idleWorkers s)"
    by (auto dest: in_set_butlastD)
  have db: "distinct (butlast (idleWorkers s))" using d by (rule distinct_butlast)
  from assms have dp: "distinct (map fst (posted s))"
    and iw: "\<forall>w \<in> set (idleWorkers s). w < spawned s \<and> w \<notin> fst ` set (posted s)"
    and pw: "\<forall>p \<in> set (posted s). fst p < spawned s"
    by (simp_all add: idle_inv_iff)
  let ?w = "last (idleWorkers s)"
  let ?s1 = "s\<lparr> idleWorkers := butlast (idleWorkers s) \<rparr>"
  have iw1: "\<forall>w \<in> set (butlast (idleWorkers s)). w < spawned s \<and> w \<notin> fst ` set (posted s)"
    using iw sub by blast
  have i1: "idle_inv ?s1" unfolding idle_inv_iff using db dp iw1 pw by simp
  have rej: "idle_inv (?s1\<lparr> settled := x \<rparr>)" for x
    using i1 by (simp add: idle_inv_def)
  let ?t = "task_id (hd (taskQueue s))"
  have wn: "?w \<notin> fst ` set (posted s)" and wl: "?w < spawned s" using iw l1 by auto
  have p1: "distinct (map fst (posted s @ [(?w, ?t)]))" using dp wn by simp
  have p3: "\<forall>w \<in> set (butlast (idleWorkers s)).
              w < spawned s \<and> w \<notin> fst ` set (posted s @ [(?w, ?t)])"
    using iw1 l2 by auto
  have p4: "\<forall>p \<in> set (posted s @ [(?w, ?t)]). fst p < spawned s" using pw wl by auto
  have dis: "idle_inv (?s1\<lparr> posted := posted ?s1 @ [(?w, ?t)], timers := y \<rparr>)" for y
    unfolding idle_inv_iff using db p1 p3 p4 by simp
  show ?thesis
  proof (cases "workerScripts s (task_type (hd (taskQueue s)))")
    case None
    then show ?thesis using False rej by (simp add: processNextTask_def Let_def)
  next
    case (Some scriptPath)
    then show ?thesis using False rej dis by (simp add: processNextTask_def Let_def)
  qed
qed

lemma idle_inv_removeWorker:
  assumes "idle_inv s" shows "idle_inv (removeWorker w s)"
proof -
  from assms have di: "distinct (idleWorkers s)" and dp: "distinct (map fst (posted s))"
    and iw: "\<forall>w \<in> set (idleWorkers s). w < spawned s \<and> w \<notin> fst ` set (posted s)"
    and pw: "\<forall>p \<in> set (posted s). fst p < spawned s"
    by (simp_all add: idle_inv_iff)
  have f: "idleWorkers (removeWorker w s) = remove1 w (idleWorkers s)"
    "posted (removeWorker w s) = posted s" "spawned (removeWorker w s) = spawned s"
    by (simp_all add: removeWorker_def)
  have 1: "distinct (remove1 w (idleWorkers s))" using di by simp
  have 3: "\<forall>v \<in> set (remove1 w (idleWorkers s)). v < spawned s \<and> v \<notin> fst ` set (posted s)"
    using iw set_remove1_subset [of w "idleWorkers s"] by blast
  show ?thesis unfolding idle_inv_iff f using 1 dp 3 pw by simp
qed

lemma idle_inv_terminate:
  assumes "idle_inv s" shows "idle_inv (terminate w s)"
proof -
  from assms have di: "distinct (idleWorkers s)" and dp: "distinct (map fst (posted s))"
    and iw: "\<forall>w \<in> set (idleWorkers s). w < spawned s \<and> w \<notin> fst ` set (posted s)"
    and pw: "\<forall>p \<in> set (posted s). fst p < spawned s"
    by (simp_all add: idle_inv_iff)
  let ?p = "filter (\<lambda>p. fst p \<noteq> w) (posted s)"
  have f: "idleWorkers (terminate w s) = idleWorkers s"
    "posted (terminate w s) = ?p" "spawned (terminate w s) = spawned s"
    by (simp_all add: terminate_def)
  have sub: "set ?p \<subseteq> set (posted s)" by auto
  then have subf: "fst ` set ?p \<subseteq> fst ` set (posted s)" by (rule image_mono)
  have 2: "distinct (map fst ?p)" using dp by (rule distinct_map_filter)
  have 3: "\<forall>v \<in> set (idleWorkers s). v < spawned s \<and> v \<notin> fst ` set ?p"
    using iw subf by blast
  have 4: "\<forall>p \<in> set ?p. fst p < spawned s" using pw sub by blast
  show ?thesis unfolding idle_inv_iff f using di 2 3 4 by simp
qed

lemma idle_inv_fields:
  "idleWorkers s' = idleWorkers s \<Longrightarrow> posted s' = posted s \<Longrightarrow> spawned s' = spawned s \<Longrightarrow>
   idle_inv s' = idle_inv s"
  by (simp add: idle_inv_def)

lemma idle_inv_executeTask: "idle_inv s \<Longrightarrow> idle_inv (executeTask ty s)"
proof -
  assume a: "idle_inv s"
  let ?s1 = "s\<lparr> taskQueue := taskQueue s @ [\<lparr> task_id = issued s, task_type = ty \<rparr>],
               issued := Suc (issued s) \<rparr>"
  have "idle_inv ?s1" using a by (simp add: idle_inv_def)
  then have "idle_inv (if idleWorkers ?s1 = [] \<and> length (workers ?s1) < maxWorkers (options ?s1)
                      then createWorker ?s1 else ?s1)"
    by (simp add: idle_inv_createWorker)
  then have "idle_inv (processNextTask
                 (if idleWorkers ?s1 = [] \<and> length (workers ?s1) < maxWorkers (options ?s1)
                  then createWorker ?s1 else ?s1))"
    by (rule idle_inv_processNextTask)
  then show ?thesis by (simp add: executeTask_def Let_def)
qed

lemma idle_inv_return_worker:
  assumes "idle_inv s" and "w \<notin> set (idleWorkers s)" and "w \<notin> fst ` set (posted s)"
    and "w < spawned s"
  shows "idle_inv (s\<lparr> idleWorkers := idleWorkers s @ [w] \<rparr>)"
proof -
  from assms(1) have di: "distinct (idleWorkers s)" and dp: "distinct (map fst (posted s))"
    and iw: "\<forall>w \<in> set (idleWorkers s). w < spawned s \<and> w \<notin> fst ` set (posted s)"
    and pw: "\<forall>p \<in> set (posted s). fst p < spawned s"
    by (simp_all add: idle_inv_iff)
  have 1: "distinct (idleWorkers s @ [w])" using di assms(2) by simp
  have 3: "\<forall>v \<in> set (idleWorkers s @ [w]). v < spawned s \<and> v \<notin> fst ` set (posted s)"
    using iw assms(3,4) by auto
  show ?thesis unfolding idle_inv_iff using 1 dp 3 pw by simp
qed

lemma idle_inv_onMessage:
  assumes "idle_inv s" and "w \<notin> set (idleWorkers s)" and "w \<notin> fst ` set (posted s)"
    and "w < spawned s"
  shows "idle_inv (onMessage w taskId err s)"
proof (cases "find (\<lambda>t. task_id t = taskId) (taskQueue s)")
  case None
  then show ?thesis using assms(1) by (simp add: onMessage_def)
next
  case (Some task)
  let ?s1 = "(case err of
                Some e \<Rightarrow>
                  if e \<noteq> [] then
                    s\<lparr> failedTasks := Suc (failedTasks s),
                       settled := settled s @ [(task_id task, Reject e)] \<rparr>
                  else
                    s\<lparr> completedTasks := Suc (completedTasks s),
                       settled := settled s @ [(task_id task, Resolve)] \<rparr>
              | None \<Rightarrow>
                  s\<lparr> completedTasks := Suc (completedTasks s),
                     settled := settled s @ [(task_id task, Resolve)] \<rparr>)"
  have f: "idleWorkers ?s1 = idleWorkers s" "posted ?s1 = posted s" "spawned ?s1 = spawned s"
    by (simp_all split: option.splits)
  let ?s2 = "?s1\<lparr> taskQueue := filter (\<lambda>t. task_id t \<noteq> taskId) (taskQueue ?s1) \<rparr>"
  have f2: "idleWorkers ?s2 = idleWorkers s" "posted ?s2 = posted s" "spawned ?s2 = spawned s"
    using f by simp_all
  have i2: "idle_inv ?s2" using assms(1) idle_inv_fields [OF f2] by simp
  have "idle_inv (?s2\<lparr> idleWorkers := idleWorkers ?s2 @ [w] \<rparr>)"
    using i2 assms(2-4) unfolding f2 [symmetric] by (rule idle_inv_return_worker)
  then have "idle_inv (processNextTask (?s2\<lparr> idleWorkers := idleWorkers ?s2 @ [w] \<rparr>))"
    by (rule idle_inv_processNextTask)
  moreover have "onMessage w taskId err s
                   = processNextTask (?s2\<lparr> idleWorkers := idleWorkers ?s2 @ [w] \<rparr>)"
    using Some by (simp add: onMessage_def Let_def)
  ultimately show ?thesis by simp
qed

lemma idle_inv_handleWorkerError: "idle_inv s \<Longrightarrow> idle_inv (handleWorkerError w s)"
  by (simp add: handleWorkerError_def idle_inv_createWorker idle_inv_removeWorker)

lemma idle_inv_handleWorkerExit: "idle_inv s \<Longrightarrow> idle_inv (handleWorkerExit w s)"
  by (simp add: handleWorkerExit_def Let_def idle_inv_createWorker idle_inv_removeWorker)

lemma idle_inv_onTimeout: "idle_inv s \<Longrightarrow> idle_inv (onTimeout taskId w s)"
proof (cases "find (\<lambda>t. task_id t = taskId) (taskQueue s)")
  case None
  assume "idle_inv s"
  then show ?thesis using None by (simp add: onTimeout_def)
next
  case (Some task)
  assume a: "idle_inv s"
  let ?s1 = "s\<lparr> taskQueue := remove1 task (taskQueue s),
               failedTasks := Suc (failedTasks s),
               settled := settled s @ [(task_id task, Reject ''Task timeout'')] \<rparr>"
  have "idle_inv ?s1" using a by (simp add: idle_inv_def)
  then have "idle_inv (handleWorkerError w ?s1)" by (rule idle_inv_handleWorkerError)
  then show ?thesis using Some by (simp add: onTimeout_def)
qed

lemma idle_inv_step:
  assumes i: "idle_inv s" and w: "workers s = []"
  shows "idle_inv (step s e)"
proof (cases e)
  case (Register ty p)
  then show ?thesis using i by (simp add: registerWorkerScript_def idle_inv_def)
next
  case (Execute ty)
  then show ?thesis using i by (simp add: idle_inv_executeTask)
next
  case (Message wk taskId err)
  show ?thesis
  proof (cases "(wk, taskId) \<in> set (posted s)")
    case False
    then show ?thesis using i Message by simp
  next
    case True
    let ?s0 = "s\<lparr> posted := remove1 (wk, taskId) (posted s) \<rparr>"
    from i have d: "distinct (map fst (posted s))"
      and di: "distinct (idleWorkers s)"
      and iw: "\<forall>w \<in> set (idleWorkers s). w < spawned s \<and> w \<notin> fst ` set (posted s)"
      and pw: "\<forall>p \<in> set (posted s). fst p < spawned s"
      by (simp_all add: idle_inv_iff)
    have n: "wk \<notin> fst ` set (posted ?s0)"
      using key_gone_after_remove1 [OF d True] by simp
    have d0: "distinct (map fst (posted ?s0))"
      using distinct_map_fst_remove1 [OF d] by simp
    have iw0: "\<forall>w \<in> set (idleWorkers ?s0). w < spawned ?s0 \<and> w \<notin> fst ` set (posted ?s0)"
      using iw fst_remove1_subset [of "(wk, taskId)" "posted s"] by auto
    have pw0: "\<forall>p \<in> set (posted ?s0). fst p < spawned ?s0"
      using pw set_remove1_subset [of "(wk, taskId)" "posted s"] by auto
    have i0: "idle_inv ?s0" unfolding idle_inv_iff using di d0 iw0 pw0 by simp
    have wp: "wk \<in> fst ` set (posted s)" using True by force
    have ni: "wk \<notin> set (idleWorkers ?s0)" using iw wp by auto
    have lt: "wk < spawned ?s0" using pw True by force
    have "idle_inv (onMessage wk taskId err ?s0)"
      using i0 ni n lt by (rule idle_inv_onMessage)
    then show ?thesis using Message True by simp
  qed
next
  case (Timeout taskId wk)
  have "idle_inv (s\<lparr> timers := remove1 (taskId, wk) (timers s) \<rparr>)"
    using i by (simp add: idle_inv_def)
  then show ?thesis using i Timeout by (simp add: idle_inv_onTimeout)
next
  case (WorkerError wk)
  then show ?thesis using i by (simp add: idle_inv_handleWorkerError idle_inv_terminate)
next
  case (WorkerExit wk)
  then show ?thesis using i by (simp add: idle_inv_handleWorkerExit idle_inv_terminate)
next
  case Cleanup
  then show ?thesis using i w by (simp add: cleanup_no_workers)
next
  case Shutdown
  show ?thesis
  proof (cases "taskQueue s = []")
    case False
    then show ?thesis using i Shutdown by (simp add: shutdown_def)
  next
    case True
    from i have "idle_inv (s\<lparr> workers := [], idleWorkers := [] \<rparr>)"
      by (simp add: idle_inv_def)
    then show ?thesis using True w Shutdown by (simp add: shutdown_def)
  qed
qed

lemma idle_inv_foldl_step:
  "idle_inv s \<Longrightarrow> workers s = [] \<Longrightarrow> idle_inv (foldl step s evs)"
proof (induction evs arbitrary: s)
  case Nil
  then show ?case by simp
next
  case (Cons e evs)
  from Cons.prems have "idle_inv (step s e)" by (rule idle_inv_step)
  moreover from Cons.prems(2) have "workers (step s e) = []" by (rule workers_step)
  ultimately have "idle_inv (foldl step (step s e) evs)" by (rule Cons.IH)
  then show ?case by simp
qed

lemma idle_inv_initialize: "idle_inv s \<Longrightarrow> idle_inv (initialize n s)"
  by (induction n arbitrary: s) (simp_all add: idle_inv_createWorker)

lemma idle_inv_run: "idle_inv (run evs (WorkerPool opts))"
proof -
  have "idle_inv (empty_pool opts)" by (simp add: idle_inv_def empty_pool_def)
  then have "idle_inv (WorkerPool opts)"
    unfolding WorkerPool_def by (rule idle_inv_initialize)
  then show ?thesis unfolding run_def using workers_WorkerPool by (rule idle_inv_foldl_step)
qed

text \<open>
  In every state the pool reaches, no worker of the idle list has a posted task that it
  has not answered.
\<close>

lemma idle_workers_not_executing:
  "set (idleWorkers (run evs (WorkerPool opts))) \<inter> set (busyWorkers (run evs (WorkerPool opts))) = {}"
  using idle_inv_run [of evs opts] by (auto simp: idle_inv_iff busyWorkers_def)

section \<open>Properties of the batch processors\<close>

lemma metrics_with_metrics:
  "metrics st b = Some m \<Longrightarrow> metrics (with_metrics b f st) b = Some (f m)"
  by (simp add: with_metrics_def)

lemma waits_with_metrics: "waits (with_metrics b f st) = waits st"
  by (simp add: with_metrics_def split: option.splits)

lemma succeeds_from_iff:
  "succeeds_from bp p r item \<longleftrightarrow> (\<exists>k. r \<le> k \<and> k \<le> maxRetries bp \<and> p item k)"
  by (auto simp: succeeds_from_def list_ex_iff)

lemma succeeds_from_step:
  "r \<le> maxRetries bp \<Longrightarrow>
   succeeds_from bp p r item = (p item r \<or> succeeds_from bp p (Suc r) item)"
  unfolding succeeds_from_iff
  by (metis Suc_leD Suc_le_eq le_neq_implies_less order_refl)

lemma succeeds_from_last:
  "succeeds_from bp p (maxRetries bp) item = p item (maxRetries bp)"
  unfolding succeeds_from_iff by (metis le_antisym order_refl)

lemma processWithRetry_counts:
  assumes "metrics st b = Some m" and "r \<le> maxRetries bp"
  shows "\<exists>m'. metrics (snd (processWithRetry bp p b item r st)) b = Some m'
           \<and> totalItems m' = totalItems m
           \<and> processedItems m' = processedItems m + (if succeeds_from bp p r item then 1 else 0)
           \<and> failedItems m' = failedItems m + (if succeeds_from bp p r item then 0 else 1)
           \<and> (fst (processWithRetry bp p b item r st) = Fulfilled
                \<longleftrightarrow> succeeds_from bp p r item)"
  using assms
proof (induction bp p b item r st arbitrary: m rule: processWithRetry.induct)
  case (1 bp p b item r st)
  note unfold = processWithRetry.simps [of bp p b item r st]
  show ?case
  proof (cases "p item r")
    case True
    then have s: "succeeds_from bp p r item"
      using "1.prems" by (simp add: succeeds_from_step)
    show ?thesis using True "1.prems"(1) s
      by (simp add: unfold metrics_with_metrics)
  next
    case False
    show ?thesis
    proof (cases "r < maxRetries bp")
      case True
      let ?st1 = "(with_metrics b (\<lambda>m. m\<lparr> retries := retries m + 1 \<rparr>) st)
                    \<lparr> waits := waits st @ [retryDelay bp] \<rparr>"
      have m1: "metrics ?st1 b = Some (m\<lparr> retries := retries m + 1 \<rparr>)"
        using "1.prems" by (simp add: metrics_with_metrics)
      have r1: "r + 1 \<le> maxRetries bp" using True by simp
      have eq: "processWithRetry bp p b item r st = processWithRetry bp p b item (r + 1) ?st1"
        using False True by (simp add: unfold)
      have s: "succeeds_from bp p r item = succeeds_from bp p (r + 1) item"
        using False "1.prems"(2) succeeds_from_step [of r bp p item] by simp
      from "1.IH" [OF False True m1 r1]
      obtain m' where
        "metrics (snd (processWithRetry bp p b item (r + 1) ?st1)) b = Some m'"
        "totalItems m' = totalItems (m\<lparr> retries := retries m + 1 \<rparr>)"
        "processedItems m' = processedItems (m\<lparr> retries := retries m + 1 \<rparr>)
            + (if succeeds_from bp p (r + 1) item then 1 else 0)"
        "failedItems m' = failedItems (m\<lparr> retries := retries m + 1 \<rparr>)
            + (if succeeds_from bp p (r + 1) item then 0 else 1)"
        "fst (processWithRetry bp p b item (r + 1) ?st1) = Fulfilled
           \<longleftrightarrow> succeeds_from bp p (r + 1) item"
        by blast
      then show ?thesis unfolding eq s by simp
    next
      case nr: False
      with "1.prems" have r: "r = maxRetries bp" by simp
      have s: "\<not> succeeds_from bp p r item"
        using False r by (simp add: succeeds_from_last)
      show ?thesis using False nr "1.prems"(1) s
        by (simp add: unfold metrics_with_metrics)
    qed
  qed
qed

lemma processBatch_counts:
  assumes "metrics st b = Some m"
  shows "\<exists>m'. metrics (snd (processBatch bp p b batch st)) b = Some m'
           \<and> totalItems m' = totalItems m
           \<and> processedItems m' = processedItems m + length (filter (succeeds_from bp p 0) batch)
           \<and> failedItems m' = failedItems m + length (filter (\<lambda>x. \<not> succeeds_from bp p 0 x) batch)
           \<and> (fst (processBatch bp p b batch st) = Fulfilled
                \<longleftrightarrow> list_all (succeeds_from bp p 0) batch)"
  using assms
proof (induction batch arbitrary: st m)
  case Nil
  then show ?case by simp
next
  case (Cons item batch)
  obtain r1 st1 where p1: "processWithRetry bp p b item 0 st = (r1, st1)"
    by (cases "processWithRetry bp p b item 0 st")
  from processWithRetry_counts [OF Cons.prems, of 0 bp p item] p1
  obtain m1 where m1: "metrics st1 b = Some m1" "totalItems m1 = totalItems m"
    and c1: "processedItems m1 = processedItems m + (if succeeds_from bp p 0 item then 1 else 0)"
      "failedItems m1 = failedItems m + (if succeeds_from bp p 0 item then 0 else 1)"
      "r1 = Fulfilled \<longleftrightarrow> succeeds_from bp p 0 item"
    by auto
  obtain r2 st2 where p2: "processBatch bp p b batch st1 = (r2, st2)"
    by (cases "processBatch bp p b batch st1")
  from Cons.IH [OF m1(1)] p2
  obtain m2 where m2: "metrics st2 b = Some m2" "totalItems m2 = totalItems m1"
    "processedItems m2 = processedItems m1 + length (filter (succeeds_from bp p 0) batch)"
    "failedItems m2 = failedItems m1 + length (filter (\<lambda>x. \<not> succeeds_from bp p 0 x) batch)"
    "r2 = Fulfilled \<longleftrightarrow> list_all (succeeds_from bp p 0) batch"
    by auto
  have res: "processBatch bp p b (item # batch) st = (all_settled r1 r2, st2)"
    by (simp add: p1 p2)
  from c1 m1 m2 show ?case unfolding res by (simp add: all_settled_def)
qed

lemma process_round_counts:
  assumes "metrics st b = Some m"
  shows "\<exists>m'. metrics (snd (process_round bp p b batches st)) b = Some m'
           \<and> totalItems m' = totalItems m
           \<and> processedItems m' =
               processedItems m + length (filter (succeeds_from bp p 0) (concat batches))
           \<and> failedItems m' =
               failedItems m + length (filter (\<lambda>x. \<not> succeeds_from bp p 0 x) (concat batches))
           \<and> (fst (process_round bp p b batches st) = Fulfilled
                \<longleftrightarrow> list_all (succeeds_from bp p 0) (concat batches))"
  using assms
proof (induction batches arbitrary: st m)
  case Nil
  then show ?case by simp
next
  case (Cons batch batches)
  obtain r1 st1 where p1: "processBatch bp p b batch st = (r1, st1)"
    by (cases "processBatch bp p b batch st")
  from processBatch_counts [OF Cons.prems, of bp p batch] p1
  obtain m1 where m1: "metrics st1 b = Some m1" "totalItems m1 = totalItems m"
    "processedItems m1 = processedItems m + length (filter (succeeds_from bp p 0) batch)"
    "failedItems m1 = failedItems m + length (filter (\<lambda>x. \<not> succeeds_from bp p 0 x) batch)"
    "r1 = Fulfilled \<longleftrightarrow> list_all (succeeds_from bp p 0) batch"
    by auto
  obtain r2 st2 where p2: "process_round bp p b batches st1 = (r2, st2)"
    by (cases "process_round bp p b batches st1")
  from Cons.IH [OF m1(1)] p2
  obtain m2 where m2: "metrics st2 b = Some m2" "totalItems m2 = totalItems m1"
    "processedItems m2 =
       processedItems m1 + length (filter (succeeds_from bp p 0) (concat batches))"
    "failedItems m2 =
       failedItems m1 + length (filter (\<lambda>x. \<not> succeeds_from bp p 0 x) (concat batches))"
    "r2 = Fulfilled \<longleftrightarrow> list_all (succeeds_from bp p 0) (concat batches)"
    by auto
  have res: "process_round bp p b (batch # batches) st = (all_settled r1 r2, st2)"
    by (simp add: p1 p2)
  from m1 m2 show ?case unfolding res by (simp add: all_settled_def)
qed

lemma createBatches_loop_total:
  assumes "0 < bsize"
  shows "\<exists>bs. createBatches_loop bsize items i acc = Some bs
            \<and> concat bs = concat acc @ drop i items"
proof (induction "length items - i" arbitrary: i acc rule: less_induct)
  case less
  show ?case
  proof (cases "i < length items")
    case True
    have "length items - (i + bsize) < length items - i" using True assms by simp
    from less [OF this, of "acc @ [take bsize (drop i items)]"]
    obtain bs where
      "createBatches_loop bsize items (i + bsize) (acc @ [take bsize (drop i items)]) = Some bs"
      "concat bs = concat (acc @ [take bsize (drop i items)]) @ drop (i + bsize) items"
      by blast
    moreover have "take bsize (drop i items) @ drop (i + bsize) items = drop i items"
      by (metis add.commute append_take_drop_id drop_drop)
    ultimately show ?thesis using True
      by (subst createBatches_loop.simps) simp
  next
    case False
    then show ?thesis by (subst createBatches_loop.simps) simp
  qed
qed

lemma createBatches_total:
  "0 < batchSize bp \<Longrightarrow> \<exists>bs. createBatches bp items = Some bs \<and> concat bs = items"
  using createBatches_loop_total [of "batchSize bp" items 0 "[]"]
  by (simp add: createBatches_def)

lemma createBatches_empty: "createBatches bp [] = Some []"
  unfolding createBatches_def by (subst createBatches_loop.simps) simp

lemma process_loop_empty: "process_loop bp p b [] 0 st = Some (Fulfilled, st)"
  by (subst process_loop.simps) simp

lemma process_loop_counts:
  assumes mc: "0 < maxConcurrent bp"
  shows "metrics st b = Some m \<Longrightarrow>
         \<exists>r st' m'. process_loop bp p b batches i st = Some (r, st')
           \<and> metrics st' b = Some m'
           \<and> totalItems m' = totalItems m
           \<and> processedItems m' + failedItems m'
                \<le> processedItems m + failedItems m + length (concat (drop i batches))
           \<and> (r = Fulfilled \<longleftrightarrow> list_all (succeeds_from bp p 0) (concat (drop i batches)))
           \<and> (r = Fulfilled \<longrightarrow>
                 processedItems m' = processedItems m + length (concat (drop i batches))
                 \<and> failedItems m' = failedItems m)"
proof (induction "length batches - i" arbitrary: i st m rule: less_induct)
  case less
  show ?case
  proof (cases "i < length batches")
    case False
    then show ?thesis using less.prems by (subst process_loop.simps) simp
  next
    case True
    let ?cur = "take (maxConcurrent bp) (drop i batches)"
    let ?ok = "succeeds_from bp p 0"
    have split: "drop i batches = ?cur @ drop (i + maxConcurrent bp) batches"
      by (metis add.commute append_take_drop_id drop_drop)
    obtain r1 st1 where p1: "process_round bp p b ?cur st = (r1, st1)"
      by (cases "process_round bp p b ?cur st")
    from process_round_counts [OF less.prems, of bp p ?cur] p1
    obtain m1 where m1: "metrics st1 b = Some m1" "totalItems m1 = totalItems m"
      "processedItems m1 = processedItems m + length (filter ?ok (concat ?cur))"
      "failedItems m1 = failedItems m + length (filter (\<lambda>x. \<not> ?ok x) (concat ?cur))"
      "r1 = Fulfilled \<longleftrightarrow> list_all ?ok (concat ?cur)"
      by auto
    have len: "length (filter ?ok (concat ?cur)) + length (filter (\<lambda>x. \<not> ?ok x) (concat ?cur))
                 = length (concat ?cur)"
      by (rule sum_length_filter_compl)
    have lenc: "length (concat (drop i batches))
                  = length (concat ?cur) + length (concat (drop (i + maxConcurrent bp) batches))"
      by (subst split) simp
    have allc: "list_all ?ok (concat (drop i batches))
                  \<longleftrightarrow> list_all ?ok (concat ?cur)
                       \<and> list_all ?ok (concat (drop (i + maxConcurrent bp) batches))"
      by (subst split) simp
    show ?thesis
    proof (cases r1)
      case Rejected
      have res: "process_loop bp p b batches i st = Some (Rejected, st1)"
        using True p1 Rejected by (subst process_loop.simps) simp
      from m1 Rejected len lenc allc show ?thesis unfolding res by simp
    next
      case Fulfilled
      have res: "process_loop bp p b batches i st
                   = process_loop bp p b batches (i + maxConcurrent bp) st1"
        using True p1 Fulfilled by (subst process_loop.simps) simp
      have dec: "length batches - (i + maxConcurrent bp) < length batches - i"
        using True mc by simp
      have allcur: "list_all ?ok (concat ?cur)" using m1(5) Fulfilled by simp
      then have f0: "filter ?ok (concat ?cur) = concat ?cur"
        by (simp add: list_all_iff)
      have p1c: "processedItems m1 = processedItems m + length (concat ?cur)"
        using m1(3) f0 by simp
      have f1c: "failedItems m1 = failedItems m" using m1(4) len f0 by simp
      from less.hyps [OF dec m1(1)]
      obtain r st' m' where rest:
        "process_loop bp p b batches (i + maxConcurrent bp) st1 = Some (r, st')"
        "metrics st' b = Some m'" "totalItems m' = totalItems m1"
        "processedItems m' + failedItems m'
           \<le> processedItems m1 + failedItems m1
               + length (concat (drop (i + maxConcurrent bp) batches))"
        "r = Fulfilled \<longleftrightarrow> list_all ?ok (concat (drop (i + maxConcurrent bp) batches))"
        "r = Fulfilled \<longrightarrow>
           processedItems m' = processedItems m1
               + length (concat (drop (i + maxConcurrent bp) batches))
           \<and> failedItems m' = failedItems m1"
        by blast
      from rest m1(2) p1c f1c lenc allc allcur show ?thesis unfolding res by simp
    qed
  qed
qed

lemmas batch_eval =
  process_def createBatches_def createBatches_loop.simps process_loop.simps
  processWithRetry.simps with_metrics_def all_settled_def no_runs_def strict_bp_def
  counters_def Let_def new_BatchProcessor_def nullish_def default_batch_options_def
  always_fails_def fails_on_item_1_def fails_twice_def waited_def

text \<open>
  Claim C3 as stated fails. Two items, one batch per round, a processor that fails on
  every call: the first item exhausts its retries, \<open>process\<close> rejects, and the second
  item is never started. The counters read \<open>totalItems = 2\<close>, \<open>processedItems = 0\<close>,
  \<open>failedItems = 1\<close>.
\<close>

theorem process_rejects_short_of_total:
  "counters (process strict_bp [1, 2] always_fails ''run'' 0 9 no_runs) ''run''
     = Some (Rejected, Some (2, 0, 1))"
  by (simp add: batch_eval)

text \<open>
  Claim C4 as stated fails. Three items, one batch per round; the processor fails on
  every call for the first item and would succeed at once for the other two. The first
  item exhausts its retries, its error is thrown again, \<open>process\<close> rejects, and the
  other two items are never started: nothing was processed.
\<close>

theorem process_abandons_later_items:
  "counters (process strict_bp [1, 2, 3] fails_on_item_1 ''run'' 0 9 no_runs) ''run''
     = Some (Rejected, Some (3, 0, 1))"
  by (simp add: batch_eval)

lemma process_empty:
  "\<exists>st'. process bp [] p b now0 now1 st = Some (Fulfilled, st')
        \<and> metrics st' b = Some \<lparr> totalItems = 0, processedItems = 0, failedItems = 0,
                                   retries = 0, startTime = now0, endTime = Some now1 \<rparr>"
  by (simp add: process_def createBatches_empty process_loop_empty with_metrics_def)

lemma process_settles:
  assumes pos: "0 < batchSize bp \<and> 0 < maxConcurrent bp"
  shows "\<exists>r st' m'. process bp items p b now0 now1 st = Some (r, st')
           \<and> metrics st' b = Some m'
           \<and> endTime m' = Some now1
           \<and> totalItems m' = length items
           \<and> processedItems m' + failedItems m' \<le> totalItems m'
           \<and> (r = Fulfilled \<longleftrightarrow> (\<forall>item \<in> set items. \<exists>k \<le> maxRetries bp. p item k))
           \<and> (r = Fulfilled \<longrightarrow> processedItems m' = length items \<and> failedItems m' = 0)"
proof -
  let ?m0 = "\<lparr> totalItems = length items, processedItems = 0, failedItems = 0,
                retries = 0, startTime = now0, endTime = None \<rparr>"
  let ?st0 = "st\<lparr> metrics := (metrics st)(b \<mapsto> ?m0) \<rparr>"
  from pos createBatches_total [of bp items]
  obtain bs where bs: "createBatches bp items = Some bs" "concat bs = items" by blast
  have m0: "metrics ?st0 b = Some ?m0" by simp
  from pos process_loop_counts [OF _ m0, of bp p bs 0]
  obtain r st1 m1 where l:
    "process_loop bp p b bs 0 ?st0 = Some (r, st1)"
    "metrics st1 b = Some m1" "totalItems m1 = totalItems ?m0"
    "processedItems m1 + failedItems m1
       \<le> processedItems ?m0 + failedItems ?m0 + length (concat (drop 0 bs))"
    "r = Fulfilled \<longleftrightarrow> list_all (succeeds_from bp p 0) (concat (drop 0 bs))"
    "r = Fulfilled \<longrightarrow> processedItems m1 = processedItems ?m0 + length (concat (drop 0 bs))
       \<and> failedItems m1 = failedItems ?m0"
    by blast
  have res: "process bp items p b now0 now1 st
               = Some (r, with_metrics b (\<lambda>m. m\<lparr> endTime := Some now1 \<rparr>) st1)"
    by (simp add: process_def bs l(1))
  have fin: "metrics (with_metrics b (\<lambda>m. m\<lparr> endTime := Some now1 \<rparr>) st1) b
               = Some (m1\<lparr> endTime := Some now1 \<rparr>)"
    using l(2) by (rule metrics_with_metrics)
  have ok: "list_all (succeeds_from bp p 0) items
              \<longleftrightarrow> (\<forall>item \<in> set items. \<exists>k \<le> maxRetries bp. p item k)"
    by (simp add: list_all_iff succeeds_from_iff)
  from l(3-6) bs(2) ok fin show ?thesis unfolding res by simp
qed

text \<open>
  Claim C3, amended. An empty collection resolves at once with all counters zero.
  With a positive \<open>batchSize\<close> and \<open>maxConcurrent\<close>, \<open>process\<close> settles; the counters
  satisfy \<open>processedItems + failedItems \<le> totalItems\<close> with \<open>totalItems\<close> the length
  of the collection; \<open>process\<close> fulfils exactly when every item succeeds at some call
  among the first \<open>maxRetries + 1\<close>, and then \<open>processedItems = totalItems\<close> and
  \<open>failedItems = 0\<close>, so that \<open>processedItems + failedItems = totalItems\<close>.
\<close>

theorem process_accounting:
  "(\<exists>st'. process bp [] p b now0 now1 st = Some (Fulfilled, st')
        \<and> metrics st' b = Some \<lparr> totalItems = 0, processedItems = 0, failedItems = 0,
                                   retries = 0, startTime = now0, endTime = Some now1 \<rparr>)
   \<and> (0 < batchSize bp \<and> 0 < maxConcurrent bp \<longrightarrow>
        (\<exists>r st' m'. process bp items p b now0 now1 st = Some (r, st')
           \<and> metrics st' b = Some m'
           \<and> totalItems m' = length items
           \<and> processedItems m' + failedItems m' \<le> totalItems m'
           \<and> (r = Fulfilled \<longleftrightarrow> (\<forall>item \<in> set items. \<exists>k \<le> maxRetries bp. p item k))
           \<and> (r = Fulfilled \<longrightarrow> processedItems m' = length items \<and> failedItems m' = 0)))"
  using process_empty [of bp p b now0 now1 st] process_settles [of bp items p b now0 now1 st]
  by blast

theorem process_accounting_witness:
  "\<exists>st' m'. process (new_BatchProcessor default_batch_options) [1, 2, 3 :: nat]
               (\<lambda>item n. 2 \<le> n) ''run'' 0 9 no_runs = Some (Fulfilled, st')
       \<and> metrics st' ''run'' = Some m'
       \<and> totalItems m' = 3 \<and> processedItems m' = 3 \<and> failedItems m' = 0"
proof -
  have pos: "0 < batchSize (new_BatchProcessor default_batch_options)
             \<and> 0 < maxConcurrent (new_BatchProcessor default_batch_options)"
    by (simp add: new_BatchProcessor_def nullish_def default_batch_options_def)
  have ok: "\<forall>item \<in> set [1, 2, 3 :: nat].
              \<exists>k \<le> maxRetries (new_BatchProcessor default_batch_options). (2::nat) \<le> k"
    by (auto simp: new_BatchProcessor_def nullish_def default_batch_options_def intro: exI [of _ 2])
  from process_accounting [of "new_BatchProcessor default_batch_options" "\<lambda>item n. 2 \<le> n"
      "''run''" 0 9 no_runs "[1, 2, 3 :: nat]"] pos ok
  show ?thesis by auto
qed

lemma processWithRetry_skip:
  assumes "metrics st b = Some m" and "\<forall>j<n. \<not> p item (r + j)" and "r + n \<le> maxRetries bp"
  shows "processWithRetry bp p b item r st =
         processWithRetry bp p b item (r + n)
           (st\<lparr> metrics := (metrics st)(b \<mapsto> m\<lparr> retries := retries m + n \<rparr>),
                waits := waits st @ replicate n (retryDelay bp) \<rparr>)"
  using assms
proof (induction n arbitrary: r st m)
  case 0
  have "(metrics st)(b \<mapsto> m) = metrics st" using "0.prems"(1) by (rule map_upd_triv)
  then show ?case by simp
next
  case (Suc n)
  let ?st1 = "(with_metrics b (\<lambda>m. m\<lparr> retries := retries m + 1 \<rparr>) st)
                \<lparr> waits := waits st @ [retryDelay bp] \<rparr>"
  let ?m1 = "m\<lparr> retries := retries m + 1 \<rparr>"
  have f: "\<not> p item r" using Suc.prems(2) by (metis add.right_neutral zero_less_Suc)
  have lt: "r < maxRetries bp" using Suc.prems(3) by simp
  have eq: "processWithRetry bp p b item r st = processWithRetry bp p b item (r + 1) ?st1"
    using f lt by (simp add: processWithRetry.simps [of bp p b item r st])
  have m1: "metrics ?st1 b = Some ?m1"
    using Suc.prems(1) by (simp add: with_metrics_def)
  have fs: "\<forall>j<n. \<not> p item (r + 1 + j)" using Suc.prems(2)
    by (metis Suc_eq_plus1 Suc_less_eq add_Suc_right add_Suc)
  have le: "r + 1 + n \<le> maxRetries bp" using Suc.prems(3) by simp
  have st: "?st1\<lparr> metrics := (metrics ?st1)(b \<mapsto> ?m1\<lparr> retries := retries ?m1 + n \<rparr>),
                  waits := waits ?st1 @ replicate n (retryDelay bp) \<rparr>
            = st\<lparr> metrics := (metrics st)(b \<mapsto> m\<lparr> retries := retries m + Suc n \<rparr>),
                  waits := waits st @ replicate (Suc n) (retryDelay bp) \<rparr>"
    using Suc.prems(1) by (simp add: with_metrics_def)
  have idx: "r + 1 + n = r + Suc n" by simp
  note eq
  also have "processWithRetry bp p b item (r + 1) ?st1 =
             processWithRetry bp p b item (r + 1 + n)
               (?st1\<lparr> metrics := (metrics ?st1)(b \<mapsto> ?m1\<lparr> retries := retries ?m1 + n \<rparr>),
                      waits := waits ?st1 @ replicate n (retryDelay bp) \<rparr>)"
    using m1 fs le by (rule Suc.IH)
  finally show ?case unfolding st idx .
qed

lemma processChunkWithRetry_skip:
  assumes "\<forall>j<n. \<not> add chunk (r + j)"
    and "r + n \<le> or_default (Some (chunk_maxRetries opts)) 3"
  shows "processChunkWithRetry opts add chunk r st =
         processChunkWithRetry opts add chunk (r + n)
           (st\<lparr> chunk_waits := chunk_waits st @
                  map (\<lambda>attempt. or_default (Some (chunk_retryDelay opts)) 1000 * 2 ^ attempt)
                    [r ..< r + n] \<rparr>)"
  using assms
proof (induction n arbitrary: r st)
  case 0
  then show ?case by simp
next
  case (Suc n)
  let ?d = "or_default (Some (chunk_retryDelay opts)) 1000"
  let ?st1 = "st\<lparr> chunk_waits := chunk_waits st @ [?d * 2 ^ r] \<rparr>"
  have f: "\<not> add chunk r" using Suc.prems(1) by (metis add.right_neutral zero_less_Suc)
  have lt: "r < or_default (Some (chunk_maxRetries opts)) 3" using Suc.prems(2) by simp
  have eq: "processChunkWithRetry opts add chunk r st
              = processChunkWithRetry opts add chunk (r + 1) ?st1"
    using f lt by (simp add: processChunkWithRetry.simps [of opts add chunk r st])
  have fs: "\<forall>j<n. \<not> add chunk (r + 1 + j)" using Suc.prems(1)
    by (metis Suc_eq_plus1 Suc_less_eq add_Suc_right add_Suc)
  have le: "r + 1 + n \<le> or_default (Some (chunk_maxRetries opts)) 3"
    using Suc.prems(2) by simp
  have up: "[r ..< r + Suc n] = r # [r + 1 ..< r + 1 + n]"
    by (simp add: upt_conv_Cons)
  have st: "?st1\<lparr> chunk_waits := chunk_waits ?st1 @
                     map (\<lambda>attempt. ?d * 2 ^ attempt) [r + 1 ..< r + 1 + n] \<rparr>
            = st\<lparr> chunk_waits := chunk_waits st @
                     map (\<lambda>attempt. ?d * 2 ^ attempt) [r ..< r + Suc n] \<rparr>"
    unfolding up by simp
  have idx: "r + 1 + n = r + Suc n" by simp
  note eq
  also have "processChunkWithRetry opts add chunk (r + 1) ?st1 =
             processChunkWithRetry opts add chunk (r + 1 + n)
               (?st1\<lparr> chunk_waits := chunk_waits ?st1 @
                     map (\<lambda>attempt. ?d * 2 ^ attempt) [r + 1 ..< r + 1 + n] \<rparr>)"
    using fs le by (rule Suc.IH)
  finally show ?case unfolding st unfolding idx .
qed

lemma processWithRetry_exhausted:
  assumes m: "metrics st b = Some m" and f: "\<forall>k \<le> maxRetries bp. \<not> p item k"
  shows "processWithRetry bp p b item 0 st =
           (Rejected,
            st\<lparr> metrics := (metrics st)(b \<mapsto>
                    m\<lparr> retries := retries m + maxRetries bp,
                       failedItems := failedItems m + 1 \<rparr>),
                 waits := waits st @ replicate (maxRetries bp) (retryDelay bp) \<rparr>)"
proof -
  let ?st = "st\<lparr> metrics := (metrics st)(b \<mapsto> m\<lparr> retries := retries m + maxRetries bp \<rparr>),
                  waits := waits st @ replicate (maxRetries bp) (retryDelay bp) \<rparr>"
  have "processWithRetry bp p b item 0 st
          = processWithRetry bp p b item (0 + maxRetries bp) ?st"
    using m f by (intro processWithRetry_skip) simp_all
  also have "\<dots> = (Rejected,
            st\<lparr> metrics := (metrics st)(b \<mapsto>
                    m\<lparr> retries := retries m + maxRetries bp,
                       failedItems := failedItems m + 1 \<rparr>),
                 waits := waits st @ replicate (maxRetries bp) (retryDelay bp) \<rparr>)"
    using f by (simp add: processWithRetry.simps [of bp p b item "maxRetries bp" ?st]
        with_metrics_def)
  finally show ?thesis .
qed

lemma processWithRetry_succeeds_at:
  assumes m: "metrics st b = Some m" and f: "\<forall>j<k. \<not> p item j" and s: "p item k"
    and k: "k \<le> maxRetries bp"
  shows "processWithRetry bp p b item 0 st =
           (Fulfilled,
            st\<lparr> metrics := (metrics st)(b \<mapsto>
                    m\<lparr> retries := retries m + k,
                       processedItems := processedItems m + 1 \<rparr>),
                 waits := waits st @ replicate k (retryDelay bp) \<rparr>)"
proof -
  let ?st = "st\<lparr> metrics := (metrics st)(b \<mapsto> m\<lparr> retries := retries m + k \<rparr>),
                  waits := waits st @ replicate k (retryDelay bp) \<rparr>"
  have "processWithRetry bp p b item 0 st = processWithRetry bp p b item (0 + k) ?st"
    using m f k by (intro processWithRetry_skip) simp_all
  also have "\<dots> = (Fulfilled,
            st\<lparr> metrics := (metrics st)(b \<mapsto>
                    m\<lparr> retries := retries m + k,
                       processedItems := processedItems m + 1 \<rparr>),
                 waits := waits st @ replicate k (retryDelay bp) \<rparr>)"
    using s by (simp add: processWithRetry.simps [of bp p b item k ?st] with_metrics_def)
  finally show ?thesis .
qed

lemma processChunkWithRetry_succeeds_at:
  assumes f: "\<forall>j<k. \<not> add chunk j" and s: "add chunk k"
    and k: "k \<le> or_default (Some (chunk_maxRetries opts)) 3"
  shows "processChunkWithRetry opts add chunk 0 st =
           (True,
            st\<lparr> chunk_metrics := (chunk_metrics st)
                    \<lparr> processedChunks := processedChunks (chunk_metrics st) + 1 \<rparr>,
                 chunk_waits := chunk_waits st @
                    map (\<lambda>attempt. or_default (Some (chunk_retryDelay opts)) 1000 * 2 ^ attempt)
                      [0 ..< k] \<rparr>)"
proof -
  let ?st = "st\<lparr> chunk_waits := chunk_waits st @
                    map (\<lambda>attempt. or_default (Some (chunk_retryDelay opts)) 1000 * 2 ^ attempt)
                      [0 ..< k] \<rparr>"
  have "processChunkWithRetry opts add chunk 0 st = processChunkWithRetry opts add chunk k ?st"
    using processChunkWithRetry_skip [of k add chunk 0 opts st] f k by simp
  also have "\<dots> = (True,
            st\<lparr> chunk_metrics := (chunk_metrics st)
                    \<lparr> processedChunks := processedChunks (chunk_metrics st) + 1 \<rparr>,
                 chunk_waits := chunk_waits st @
                    map (\<lambda>attempt. or_default (Some (chunk_retryDelay opts)) 1000 * 2 ^ attempt)
                      [0 ..< k] \<rparr>)"
    using s by (simp add: processChunkWithRetry.simps [of opts add chunk k ?st])
  finally show ?thesis .
qed

text \<open>
  The items are laid out in rounds of \<open>batchSize * maxConcurrent\<close> consecutive items.
  A run whose first rounds hold only items that succeed goes through them; the first
  round that holds an item that exhausts its retries ends the run.
\<close>

lemma createBatches_loop_take:
  assumes pos: "0 < bsize"
  shows "i = length acc * bsize \<Longrightarrow>
         (\<forall>k \<le> length acc. concat (take k acc) = take (k * bsize) items) \<Longrightarrow>
         \<exists>bs. createBatches_loop bsize items i acc = Some bs
            \<and> (\<forall>k. concat (take k bs) = take (k * bsize) items)"
proof (induction "length items - i" arbitrary: i acc rule: less_induct)
  case less
  show ?case
  proof (cases "i < length items")
    case True
    let ?acc = "acc @ [take bsize (drop i items)]"
    have dec: "length items - (i + bsize) < length items - i" using True pos by simp
    have idx: "i + bsize = length ?acc * bsize" using less.prems(1) by simp
    have full: "concat acc = take i items"
      using less.prems(2) [rule_format, of "length acc"] less.prems(1) by simp
    have inv: "\<forall>k \<le> length ?acc. concat (take k ?acc) = take (k * bsize) items"
    proof (intro allI impI)
      fix k assume k: "k \<le> length ?acc"
      show "concat (take k ?acc) = take (k * bsize) items"
      proof (cases "k \<le> length acc")
        case True
        then show ?thesis using less.prems(2) by simp
      next
        case False
        with k have ke: "k = Suc (length acc)" by simp
        have "concat (take k ?acc) = take i items @ take bsize (drop i items)"
          using ke full by simp
        also have "\<dots> = take (i + bsize) items" by (simp add: take_add)
        also have "i + bsize = k * bsize" using ke less.prems(1) by simp
        finally show ?thesis .
      qed
    qed
    from less.hyps [OF dec idx inv]
    show ?thesis using True by (subst createBatches_loop.simps) simp
  next
    case False
    have full: "concat acc = take i items"
      using less.prems(2) [rule_format, of "length acc"] less.prems(1) by simp
    have "\<forall>k. concat (take k acc) = take (k * bsize) items"
    proof
      fix k
      show "concat (take k acc) = take (k * bsize) items"
      proof (cases "k \<le> length acc")
        case True
        then show ?thesis using less.prems(2) by simp
      next
        case nk: False
        then have "length acc \<le> k" by simp
        then have "length acc * bsize \<le> k * bsize" by (rule mult_le_mono1)
        then have "length items \<le> k * bsize" using False less.prems(1) by linarith
        then have "take (k * bsize) items = items" by simp
        moreover have "concat (take k acc) = items" using nk full False by simp
        ultimately show ?thesis by simp
      qed
    qed
    then show ?thesis using False by (subst createBatches_loop.simps) simp
  qed
qed

lemma createBatches_take:
  assumes "0 < batchSize bp"
  shows "\<exists>bs. createBatches bp items = Some bs
           \<and> (\<forall>k. concat (take k bs) = take (k * batchSize bp) items)"
  unfolding createBatches_def
  using assms by (rule createBatches_loop_take) simp_all

lemma round_items:
  assumes "\<forall>k. concat (take k bs) = take (k * s) (items :: 'a list)"
  shows "concat (take c (drop i bs)) = take (c * s) (drop (i * s) items)"
proof -
  have "concat (take (i + c) bs) = concat (take i bs) @ concat (take c (drop i bs))"
    by (simp add: take_add)
  then have "take (i * s + c * s) items = take (i * s) items @ concat (take c (drop i bs))"
    using assms by (simp add: add_mult_distrib)
  moreover have "take (i * s + c * s) items
                   = take (i * s) items @ take (c * s) (drop (i * s) items)"
    by (simp add: take_add)
  ultimately show ?thesis by simp
qed

lemma batches_cover:
  assumes "\<forall>k. concat (take k bs) = take (k * s) (items :: 'a list)"
    and "i * s < length items" and s: "0 < s"
  shows "i < length bs"
proof (rule ccontr)
  assume n: "\<not> i < length bs"
  let ?K = "Suc i + length items"
  have "take i bs = bs" using n by simp
  then have a: "concat bs = take (i * s) items" using assms(1) [rule_format, of i] by simp
  have "take ?K bs = bs" using n by simp
  then have b: "concat bs = take (?K * s) items" using assms(1) [rule_format, of ?K] by simp
  have "length items * 1 \<le> ?K * s" using s by (intro mult_le_mono) simp_all
  then have "take (?K * s) items = items" by simp
  with a b have "items = take (i * s) items" by simp
  then have "length items = length (take (i * s) items)" by simp
  then show False using assms(2) by simp
qed

lemma set_take_drop_subset: "set (take a (drop b xs)) \<subseteq> set (take (b + a) xs)"
  by (simp add: take_add)

lemma process_loop_full_rounds:
  assumes lay: "\<forall>k. concat (take k bs) = take (k * batchSize bp) (items :: 'a list)"
    and s: "0 < batchSize bp" and c: "0 < maxConcurrent bp"
  shows "metrics st b = Some m \<Longrightarrow>
         (r + n) * (maxConcurrent bp * batchSize bp) \<le> length items \<Longrightarrow>
         (\<forall>x \<in> set (take (n * (maxConcurrent bp * batchSize bp))
                      (drop (r * (maxConcurrent bp * batchSize bp)) items)).
             succeeds_from bp p 0 x) \<Longrightarrow>
         \<exists>st' m'. process_loop bp p b bs (r * maxConcurrent bp) st
                     = process_loop bp p b bs ((r + n) * maxConcurrent bp) st'
           \<and> metrics st' b = Some m'
           \<and> totalItems m' = totalItems m
           \<and> processedItems m' = processedItems m + n * (maxConcurrent bp * batchSize bp)
           \<and> failedItems m' = failedItems m"
proof (induction n arbitrary: r st m)
  case 0
  have "process_loop bp p b bs (r * maxConcurrent bp) st
          = process_loop bp p b bs ((r + 0) * maxConcurrent bp) st"
    by simp
  moreover have "processedItems m = processedItems m + 0 * (maxConcurrent bp * batchSize bp)"
    by simp
  ultimately show ?case using "0.prems"(1) by blast
next
  case (Suc n)
  let ?R = "maxConcurrent bp * batchSize bp"
  let ?i = "r * maxConcurrent bp"
  let ?cur = "take (maxConcurrent bp) (drop ?i bs)"
  let ?ok = "succeeds_from bp p 0"
  have Rpos: "0 < ?R" using s c by simp
  have ix: "?i * batchSize bp = r * ?R" by (simp add: mult.assoc)
  have cur: "concat ?cur = take ?R (drop (r * ?R) items)"
    using round_items [OF lay, of "maxConcurrent bp" ?i] unfolding ix .
  have le1: "r * ?R + ?R \<le> length items" using Suc.prems(2) by (simp add: add_mult_distrib)
  then have lt: "?i * batchSize bp < length items" unfolding ix using Rpos by linarith
  have ib: "?i < length bs" using lay lt s by (rule batches_cover)
  have sub1: "set (take ?R (drop (r * ?R) items))
                \<subseteq> set (take (Suc n * ?R) (drop (r * ?R) items))"
    by (rule set_take_subset_set_take) simp
  have allok: "list_all ?ok (concat ?cur)"
    unfolding cur list_all_iff using Suc.prems(3) sub1 by blast
  have lencur: "length (concat ?cur) = ?R" unfolding cur using le1 by simp
  obtain r1 st1 where p1: "process_round bp p b ?cur st = (r1, st1)"
    by (cases "process_round bp p b ?cur st")
  from process_round_counts [OF Suc.prems(1), of bp p ?cur] p1
  obtain m1 where m1: "metrics st1 b = Some m1" "totalItems m1 = totalItems m"
    "processedItems m1 = processedItems m + length (filter ?ok (concat ?cur))"
    "failedItems m1 = failedItems m + length (filter (\<lambda>x. \<not> ?ok x) (concat ?cur))"
    "r1 = Fulfilled \<longleftrightarrow> list_all ?ok (concat ?cur)"
    by auto
  have f1: "filter ?ok (concat ?cur) = concat ?cur" using allok by (simp add: list_all_iff)
  have f2: "filter (\<lambda>x. \<not> ?ok x) (concat ?cur) = []"
    using allok by (simp add: list_all_iff)
  have pc: "processedItems m1 = processedItems m + ?R" using m1(3) f1 lencur by simp
  have fc: "failedItems m1 = failedItems m" using m1(4) f2 by simp
  have ful: "r1 = Fulfilled" using m1(5) allok by simp
  have step: "process_loop bp p b bs ?i st
                = process_loop bp p b bs (Suc r * maxConcurrent bp) st1"
    using ib p1 ful by (subst process_loop.simps) (simp add: add.commute)
  have le2: "(Suc r + n) * ?R \<le> length items" using Suc.prems(2) by simp
  have dd: "drop (Suc r * ?R) items = drop (n * 0 + ?R) (drop (r * ?R) items)"
    by (simp add: add.commute)
  have sub2: "set (take (n * ?R) (drop (Suc r * ?R) items))
                \<subseteq> set (take (Suc n * ?R) (drop (r * ?R) items))"
    using set_take_drop_subset [of "n * ?R" ?R "drop (r * ?R) items"]
    by (simp add: add.commute)
  have ok2: "\<forall>x \<in> set (take (n * ?R) (drop (Suc r * ?R) items)). ?ok x"
    using Suc.prems(3) sub2 by blast
  from Suc.IH [OF m1(1) le2 ok2]
  obtain st' m' where r:
    "process_loop bp p b bs (Suc r * maxConcurrent bp) st1
       = process_loop bp p b bs ((Suc r + n) * maxConcurrent bp) st'"
    "metrics st' b = Some m'" "totalItems m' = totalItems m1"
    "processedItems m' = processedItems m1 + n * ?R" "failedItems m' = failedItems m1"
    by blast
  have idx: "(Suc r + n) * maxConcurrent bp = (r + Suc n) * maxConcurrent bp" by simp
  have "process_loop bp p b bs ?i st
          = process_loop bp p b bs ((r + Suc n) * maxConcurrent bp) st'"
    using step r(1) unfolding idx by simp
  moreover have "processedItems m' = processedItems m + Suc n * ?R"
    using r(4) pc by simp
  moreover have "totalItems m' = totalItems m" using r(3) m1(2) by simp
  moreover have "failedItems m' = failedItems m" using r(5) fc by simp
  ultimately show ?case using r(2) by blast
qed

lemma process_loop_failing_round:
  assumes lay: "\<forall>k. concat (take k bs) = take (k * batchSize bp) (items :: 'a list)"
    and s: "0 < batchSize bp" and c: "0 < maxConcurrent bp"
    and m: "metrics st b = Some m"
    and bad: "x \<in> set (take (maxConcurrent bp * batchSize bp)
                          (drop (r * (maxConcurrent bp * batchSize bp)) items))"
      "\<not> succeeds_from bp p 0 x"
  shows "\<exists>st' m'. process_loop bp p b bs (r * maxConcurrent bp) st = Some (Rejected, st')
           \<and> metrics st' b = Some m'
           \<and> totalItems m' = totalItems m
           \<and> processedItems m' + failedItems m'
                = processedItems m + failedItems m
                  + min (maxConcurrent bp * batchSize bp)
                        (length items - r * (maxConcurrent bp * batchSize bp))
           \<and> failedItems m < failedItems m'"
proof -
  let ?R = "maxConcurrent bp * batchSize bp"
  let ?i = "r * maxConcurrent bp"
  let ?cur = "take (maxConcurrent bp) (drop ?i bs)"
  let ?ok = "succeeds_from bp p 0"
  have ix: "?i * batchSize bp = r * ?R" by (simp add: mult.assoc)
  have cur: "concat ?cur = take ?R (drop (r * ?R) items)"
    using round_items [OF lay, of "maxConcurrent bp" ?i] unfolding ix .
  have ne: "drop (r * ?R) items \<noteq> []" using bad(1) by auto
  then have lt: "?i * batchSize bp < length items" unfolding ix by simp
  have ib: "?i < length bs" using lay lt s by (rule batches_cover)
  have lencur: "length (concat ?cur) = min ?R (length items - r * ?R)"
    unfolding cur by (simp add: min.commute)
  obtain r1 st1 where p1: "process_round bp p b ?cur st = (r1, st1)"
    by (cases "process_round bp p b ?cur st")
  from process_round_counts [OF m, of bp p ?cur] p1
  obtain m1 where m1: "metrics st1 b = Some m1" "totalItems m1 = totalItems m"
    "processedItems m1 = processedItems m + length (filter ?ok (concat ?cur))"
    "failedItems m1 = failedItems m + length (filter (\<lambda>x. \<not> ?ok x) (concat ?cur))"
    "r1 = Fulfilled \<longleftrightarrow> list_all ?ok (concat ?cur)"
    by auto
  have xin: "x \<in> set (filter (\<lambda>x. \<not> ?ok x) (concat ?cur))"
    unfolding cur using bad by simp
  then have fpos: "0 < length (filter (\<lambda>x. \<not> ?ok x) (concat ?cur))"
    by (metis length_pos_if_in_set)
  have rej: "r1 = Rejected"
  proof (cases r1)
    case Fulfilled
    with m1(5) have "list_all ?ok (concat ?cur)" by simp
    with bad show ?thesis unfolding cur by (simp add: list_all_iff)
  qed simp
  have sum: "length (filter ?ok (concat ?cur)) + length (filter (\<lambda>x. \<not> ?ok x) (concat ?cur))
               = length (concat ?cur)"
    by (rule sum_length_filter_compl)
  have res: "process_loop bp p b bs ?i st = Some (Rejected, st1)"
    using ib p1 rej by (subst process_loop.simps) simp
  have tot: "processedItems m1 + failedItems m1
               = processedItems m + failedItems m + min ?R (length items - r * ?R)"
    using m1(3,4) sum lencur by simp
  have fl: "failedItems m < failedItems m1" using m1(4) fpos by simp
  from res m1(1,2) tot fl show ?thesis by blast
qed

lemma process_stops_at_failing_round:
  assumes s: "0 < batchSize bp" and c: "0 < maxConcurrent bp"
    and len: "length xs = n * (batchSize bp * maxConcurrent bp)"
    and ok: "\<forall>x \<in> set xs. \<exists>k \<le> maxRetries bp. p x k"
    and bad: "item \<in> set (take (batchSize bp * maxConcurrent bp) zs)"
      "\<forall>k \<le> maxRetries bp. \<not> p item k"
  shows "\<exists>st' m'. process bp (xs @ zs) p b now0 now1 st = Some (Rejected, st')
           \<and> metrics st' b = Some m'
           \<and> endTime m' = Some now1
           \<and> totalItems m' = length xs + length zs
           \<and> processedItems m' + failedItems m'
                = length xs + min (length zs) (batchSize bp * maxConcurrent bp)
           \<and> 0 < failedItems m'"
proof -
  let ?R = "maxConcurrent bp * batchSize bp"
  let ?items = "xs @ zs"
  let ?m0 = "\<lparr> totalItems = length ?items, processedItems = 0, failedItems = 0,
                retries = 0, startTime = now0, endTime = None \<rparr>"
  let ?st0 = "st\<lparr> metrics := (metrics st)(b \<mapsto> ?m0) \<rparr>"
  have lenR: "length xs = n * ?R" using len by (simp add: mult.commute)
  from createBatches_take [OF s, of ?items]
  obtain bs where bs: "createBatches bp ?items = Some bs"
    and lay: "\<forall>k. concat (take k bs) = take (k * batchSize bp) ?items"
    by blast
  have m0: "metrics ?st0 b = Some ?m0" by simp
  have le: "(0 + n) * ?R \<le> length ?items" using lenR by simp
  have pre: "take (n * ?R) (drop (0 * ?R) ?items) = xs" using lenR by simp
  have okx: "\<forall>x \<in> set (take (n * ?R) (drop (0 * ?R) ?items)). succeeds_from bp p 0 x"
    unfolding pre using ok by (simp add: succeeds_from_iff)
  from process_loop_full_rounds [OF lay s c m0 le okx]
  obtain st1 m1 where a:
    "process_loop bp p b bs (0 * maxConcurrent bp) ?st0
       = process_loop bp p b bs ((0 + n) * maxConcurrent bp) st1"
    "metrics st1 b = Some m1" "totalItems m1 = totalItems ?m0"
    "processedItems m1 = processedItems ?m0 + n * ?R" "failedItems m1 = failedItems ?m0"
    by blast
  have rest: "take ?R (drop (n * ?R) ?items) = take ?R zs" using lenR by simp
  have badx: "item \<in> set (take ?R (drop (n * ?R) ?items))"
    unfolding rest using bad(1) by (simp add: mult.commute)
  have nok: "\<not> succeeds_from bp p 0 item" using bad(2) by (simp add: succeeds_from_iff)
  from process_loop_failing_round [OF lay s c a(2) badx nok]
  obtain st2 m2 where f:
    "process_loop bp p b bs (n * maxConcurrent bp) st1 = Some (Rejected, st2)"
    "metrics st2 b = Some m2" "totalItems m2 = totalItems m1"
    "processedItems m2 + failedItems m2
       = processedItems m1 + failedItems m1 + min ?R (length ?items - n * ?R)"
    "failedItems m1 < failedItems m2"
    by blast
  have loop: "process_loop bp p b bs 0 ?st0 = Some (Rejected, st2)"
    using a(1) f(1) by simp
  have res: "process bp ?items p b now0 now1 st
               = Some (Rejected, with_metrics b (\<lambda>m. m\<lparr> endTime := Some now1 \<rparr>) st2)"
    using loop by (simp add: process_def bs)
  have fin: "metrics (with_metrics b (\<lambda>m. m\<lparr> endTime := Some now1 \<rparr>) st2) b
               = Some (m2\<lparr> endTime := Some now1 \<rparr>)"
    using f(2) by (rule metrics_with_metrics)
  have e: "endTime (m2\<lparr> endTime := Some now1 \<rparr>) = Some now1" by simp
  have t: "totalItems (m2\<lparr> endTime := Some now1 \<rparr>) = length xs + length zs"
    using f(3) a(3) by simp
  have cnt: "processedItems (m2\<lparr> endTime := Some now1 \<rparr>) + failedItems (m2\<lparr> endTime := Some now1 \<rparr>)
               = length xs + min (length zs) (batchSize bp * maxConcurrent bp)"
    using f(4) a(4,5) lenR by (simp add: min.commute mult.commute)
  have fp: "0 < failedItems (m2\<lparr> endTime := Some now1 \<rparr>)" using f(5) by simp
  from res fin e t cnt fp show ?thesis by blast
qed

text \<open>
  Claim C4, amended. An item whose processor fails on every one of the
  \<open>maxRetries + 1\<close> calls is retried \<open>maxRetries\<close> times, then counted once in
  \<open>failedItems\<close>, and its promise rejects: the error is thrown again. A run that contains
  such an item rejects, and \<open>endTime\<close> is recorded all the same (with a positive
  \<open>batchSize\<close> and \<open>maxConcurrent\<close>, so that the run settles at all). When the rounds
  before the one that holds the item succeed throughout (\<open>xs\<close>, a whole number of
  rounds), every item of those rounds and of the round of the item reaches a terminal
  state, and no item of a later round is started: \<open>processedItems + failedItems\<close> is
  the number of items up to the end of that round.
\<close>

theorem exhausted_item_rejects_run:
  assumes "\<forall>k \<le> maxRetries bp. \<not> p item k"
  shows "(metrics st b = Some m \<longrightarrow>
            processWithRetry bp p b item 0 st =
              (Rejected,
               st\<lparr> metrics := (metrics st)(b \<mapsto>
                       m\<lparr> retries := retries m + maxRetries bp,
                          failedItems := failedItems m + 1 \<rparr>),
                    waits := waits st @ replicate (maxRetries bp) (retryDelay bp) \<rparr>))
         \<and> (item \<in> set items \<and> 0 < batchSize bp \<and> 0 < maxConcurrent bp \<longrightarrow>
              (\<exists>st' m'. process bp items p b now0 now1 st = Some (Rejected, st')
                 \<and> metrics st' b = Some m' \<and> endTime m' = Some now1))
         \<and> (0 < batchSize bp \<and> 0 < maxConcurrent bp
              \<and> length xs = n * (batchSize bp * maxConcurrent bp)
              \<and> (\<forall>x \<in> set xs. \<exists>k \<le> maxRetries bp. p x k)
              \<and> item \<in> set (take (batchSize bp * maxConcurrent bp) zs) \<longrightarrow>
              (\<exists>st' m'. process bp (xs @ zs) p b now0 now1 st = Some (Rejected, st')
                 \<and> metrics st' b = Some m'
                 \<and> endTime m' = Some now1
                 \<and> totalItems m' = length xs + length zs
                 \<and> processedItems m' + failedItems m'
                      = length xs + min (length zs) (batchSize bp * maxConcurrent bp)
                 \<and> 0 < failedItems m'))"
proof (intro conjI impI)
  assume "metrics st b = Some m"
  then show "processWithRetry bp p b item 0 st =
              (Rejected,
               st\<lparr> metrics := (metrics st)(b \<mapsto>
                       m\<lparr> retries := retries m + maxRetries bp,
                          failedItems := failedItems m + 1 \<rparr>),
                    waits := waits st @ replicate (maxRetries bp) (retryDelay bp) \<rparr>)"
    using assms by (rule processWithRetry_exhausted)
next
  assume a: "item \<in> set items \<and> 0 < batchSize bp \<and> 0 < maxConcurrent bp"
  then have pos: "0 < batchSize bp \<and> 0 < maxConcurrent bp" by simp
  from process_settles [OF pos, of items p b now0 now1 st]
  obtain r st' m' where r: "process bp items p b now0 now1 st = Some (r, st')"
    "metrics st' b = Some m'" "endTime m' = Some now1"
    "r = Fulfilled \<longleftrightarrow> (\<forall>item \<in> set items. \<exists>k \<le> maxRetries bp. p item k)"
    by blast
  from a assms have "\<not> (\<forall>item \<in> set items. \<exists>k \<le> maxRetries bp. p item k)" by blast
  with r(4) have "r = Rejected" by (cases r) simp_all
  with r(1-3) show "\<exists>st' m'. process bp items p b now0 now1 st = Some (Rejected, st')
                 \<and> metrics st' b = Some m' \<and> endTime m' = Some now1"
    by blast
next
  assume a: "0 < batchSize bp \<and> 0 < maxConcurrent bp
              \<and> length xs = n * (batchSize bp * maxConcurrent bp)
              \<and> (\<forall>x \<in> set xs. \<exists>k \<le> maxRetries bp. p x k)
              \<and> item \<in> set (take (batchSize bp * maxConcurrent bp) zs)"
  then have s: "0 < batchSize bp" and c: "0 < maxConcurrent bp"
    and len: "length xs = n * (batchSize bp * maxConcurrent bp)"
    and ok: "\<forall>x \<in> set xs. \<exists>k \<le> maxRetries bp. p x k"
    and bad: "item \<in> set (take (batchSize bp * maxConcurrent bp) zs)"
    by simp_all
  from s c len ok bad assms
  show "\<exists>st' m'. process bp (xs @ zs) p b now0 now1 st = Some (Rejected, st')
                 \<and> metrics st' b = Some m'
                 \<and> endTime m' = Some now1
                 \<and> totalItems m' = length xs + length zs
                 \<and> processedItems m' + failedItems m'
                      = length xs + min (length zs) (batchSize bp * maxConcurrent bp)
                 \<and> 0 < failedItems m'"
    by (rule process_stops_at_failing_round)
qed

theorem exhausted_item_rejects_run_witness:
  "fst (processWithRetry strict_bp fails_on_item_1 ''run'' 1 0 one_run) = Rejected
   \<and> (\<exists>st' m'. process strict_bp [2, 1, 3] fails_on_item_1 ''run'' 0 9 no_runs
                   = Some (Rejected, st')
         \<and> metrics st' ''run'' = Some m'
         \<and> endTime m' = Some 9
         \<and> totalItems m' = 3
         \<and> processedItems m' + failedItems m' = 2
         \<and> 0 < failedItems m')"
proof -
  let ?m = "\<lparr> totalItems = 1, processedItems = 0, failedItems = 0, retries = 0,
                startTime = 0, endTime = None \<rparr>"
  have m: "metrics one_run ''run'' = Some ?m" by (simp add: one_run_def)
  have f: "\<forall>k \<le> maxRetries strict_bp. \<not> fails_on_item_1 1 k"
    by (simp add: fails_on_item_1_def)
  have h: "0 < batchSize strict_bp \<and> 0 < maxConcurrent strict_bp
           \<and> length [2 :: nat] = 1 * (batchSize strict_bp * maxConcurrent strict_bp)
           \<and> (\<forall>x \<in> set [2 :: nat]. \<exists>k \<le> maxRetries strict_bp. fails_on_item_1 x k)
           \<and> 1 \<in> set (take (batchSize strict_bp * maxConcurrent strict_bp) [1, 3 :: nat])"
    by (auto simp: strict_bp_def fails_on_item_1_def intro: exI [of _ 0])
  have sz: "batchSize strict_bp = 1" "maxConcurrent strict_bp = 1"
    by (simp_all add: strict_bp_def)
  note t = exhausted_item_rejects_run [where bp = strict_bp and p = fails_on_item_1
      and item = 1, OF f]
  from t [where st = one_run and b = "''run''" and m = ?m] m
  have a: "fst (processWithRetry strict_bp fails_on_item_1 ''run'' 1 0 one_run) = Rejected"
    by simp
  from t [where xs = "[2]" and n = 1 and zs = "[1, 3]" and st = no_runs and b = "''run''"
      and ?now0.0 = 0 and ?now1.0 = 9] h
  have "\<exists>st' m'. process strict_bp ([2] @ [1, 3]) fails_on_item_1 ''run'' 0 9 no_runs
                   = Some (Rejected, st')
         \<and> metrics st' ''run'' = Some m'
         \<and> endTime m' = Some 9
         \<and> totalItems m' = length [2 :: nat] + length [1, 3 :: nat]
         \<and> processedItems m' + failedItems m'
              = length [2 :: nat] + min (length [1, 3 :: nat])
                  (batchSize strict_bp * maxConcurrent strict_bp)
         \<and> 0 < failedItems m'"
    by blast
  then have b: "\<exists>st' m'. process strict_bp [2, 1, 3] fails_on_item_1 ''run'' 0 9 no_runs
                   = Some (Rejected, st')
         \<and> metrics st' ''run'' = Some m'
         \<and> endTime m' = Some 9
         \<and> totalItems m' = 3
         \<and> processedItems m' + failedItems m' = 2
         \<and> 0 < failedItems m'"
    by (simp add: sz numeral_2_eq_2 numeral_3_eq_3)
  from a b show ?thesis by (rule conjI)
qed

text \<open>
  Claim C5 as stated fails on \<open>process\<close>. With the defaults (\<open>maxRetries = 3\<close>,
  \<open>retryDelay = 1000\<close>) an item that fails twice and then succeeds waits 1000 ms and
  again 1000 ms, not 1000 ms and 2000 ms.
\<close>

theorem process_retry_delay_is_constant:
  "waited (process (new_BatchProcessor default_batch_options) [7] fails_twice ''run'' 0 9 no_runs)
     = Some (Fulfilled, [1000, 1000])"
  by (simp add: batch_eval)

text \<open>
  Claim C5, amended. For an item that fails \<open>k\<close> times and then succeeds, with \<open>k\<close>
  within the retry limit: the chunk path (\<open>processChunkWithRetry\<close>) waits
  \<open>retryDelay * 2 ^ attempt\<close> before the re-attempt that follows attempt number
  \<open>attempt\<close>, for \<open>attempt = 0, ..., k - 1\<close>, and counts the chunk as processed; the
  path of \<open>process\<close> (\<open>processWithRetry\<close>) waits the constant \<open>retryDelay\<close> before each
  of its \<open>k\<close> re-attempts, and counts the item as processed, not failed.
\<close>

theorem retry_waits_by_path:
  assumes "\<forall>j<k. \<not> p item j" and "p item k"
  shows "(k \<le> or_default (Some (chunk_maxRetries opts)) 3 \<longrightarrow>
            processChunkWithRetry opts p item 0 cst =
              (True,
               cst\<lparr> chunk_metrics := (chunk_metrics cst)
                       \<lparr> processedChunks := processedChunks (chunk_metrics cst) + 1 \<rparr>,
                     chunk_waits := chunk_waits cst @
                       map (\<lambda>attempt. or_default (Some (chunk_retryDelay opts)) 1000 * 2 ^ attempt)
                         [0 ..< k] \<rparr>))
         \<and> (k \<le> maxRetries bp \<and> metrics st b = Some m \<longrightarrow>
              processWithRetry bp p b item 0 st =
                (Fulfilled,
                 st\<lparr> metrics := (metrics st)(b \<mapsto>
                         m\<lparr> retries := retries m + k,
                            processedItems := processedItems m + 1 \<rparr>),
                      waits := waits st @ replicate k (retryDelay bp) \<rparr>))"
  using assms processChunkWithRetry_succeeds_at [of k p item opts cst]
    processWithRetry_succeeds_at [of st b m k p item bp]
  by blast

theorem retry_waits_by_path_witness:
  "processChunkWithRetry default_chunk_options (\<lambda>item n. 2 \<le> n) (7 :: nat) 0 no_chunks
     = (True,
        \<lparr> chunk_metrics = \<lparr> totalChunks = 0, processedChunks = 1, failedChunks = 0,
                            retryCount_metric = 0 \<rparr>,
          chunk_waits = [1000, 2000] \<rparr>)
   \<and> fst (processWithRetry (new_BatchProcessor default_batch_options) (\<lambda>item n. 2 \<le> n)
             ''run'' (7 :: nat) 0 one_run) = Fulfilled
   \<and> waits (snd (processWithRetry (new_BatchProcessor default_batch_options) (\<lambda>item n. 2 \<le> n)
             ''run'' (7 :: nat) 0 one_run)) = [1000, 1000]
   \<and> map_option processedItems
         (metrics (snd (processWithRetry (new_BatchProcessor default_batch_options)
             (\<lambda>item n. 2 \<le> n) ''run'' (7 :: nat) 0 one_run)) ''run'') = Some 1"
proof -
  have k: "2 \<le> or_default (Some (chunk_maxRetries default_chunk_options)) 3"
    by (simp add: default_chunk_options_def new_ChunkOptions_def or_default_def)
  have u: "[0 ..< 2] = [0, Suc 0]" by (simp add: upt_rec)
  have k': "2 \<le> maxRetries (new_BatchProcessor default_batch_options)
            \<and> metrics one_run ''run'' = Some \<lparr> totalItems = 1, processedItems = 0,
                  failedItems = 0, retries = 0, startTime = 0, endTime = None \<rparr>"
    by (simp add: new_BatchProcessor_def default_batch_options_def nullish_def one_run_def)
  have r: "replicate 2 (1000::nat) = [1000, 1000]" by (simp add: numeral_2_eq_2)
  from retry_waits_by_path [where p = "\<lambda>item n. 2 \<le> n" and item = "7::nat" and k = 2
      and opts = default_chunk_options and cst = no_chunks
      and bp = "new_BatchProcessor default_batch_options" and st = one_run and b = "''run''"
      and m = "\<lparr> totalItems = 1, processedItems = 0, failedItems = 0, retries = 0,
                 startTime = 0, endTime = None \<rparr>"] k k'
  show ?thesis
    by (simp add: default_chunk_options_def new_ChunkOptions_def or_default_def no_chunks_def u r
        new_BatchProcessor_def default_batch_options_def nullish_def one_run_def)
qed

section \<open>Properties of the caches\<close>

lemma length_delete_head:
  "length (AList.delete k ((k, v) # es)) \<le> length es"
  by (simp add: AList.delete_eq le_imp_less_Suc)

lemma evict_oldest_total:
  assumes "0 < limit"
  shows "\<exists>es'. evict_oldest limit es = Some es' \<and> length es' < limit"
proof (induction "length es" arbitrary: es rule: less_induct)
  case less
  show ?case
  proof (cases "limit \<le> length es")
    case False
    then show ?thesis by (subst evict_oldest.simps) simp
  next
    case True
    with assms obtain k v rest where es: "es = (k, v) # rest" by (cases es) auto
    have "length (AList.delete k es) < length es"
      unfolding es using length_delete_head [of k v rest] by simp
    from less [OF this] obtain es' where
      "evict_oldest limit (AList.delete k es) = Some es'" "length es' < limit" by blast
    then show ?thesis using True es by (subst evict_oldest.simps) simp
  qed
qed

lemma evict_oldest_Some_pos:
  assumes "evict_oldest limit es = Some es'"
  shows "0 < limit"
proof (rule evict_oldest.raw_induct [where P = "\<lambda>limit es es'. 0 < limit", OF _ assms])
  fix f :: "nat \<Rightarrow> (string \<times> 'a CacheEntry) list \<Rightarrow> (string \<times> 'a CacheEntry) list option"
    and l es y
  assume ih: "\<And>a b y. f a b = Some y \<Longrightarrow> 0 < a"
    and body: "(if l \<le> length es
                then f l (case es of [] \<Rightarrow> [] | (oldestKey, x) # xa \<Rightarrow> AList.delete oldestKey es)
                else Some es) = Some y"
  show "0 < l"
  proof (cases "l \<le> length es")
    case True
    with body ih show ?thesis by simp
  next
    case False
    then show ?thesis by simp
  qed
qed

lemma cache_set_never_returns:
  assumes "enabled c" and "maxSize c = 0"
  shows "cache_set now key v c = None"
proof (cases "evict_oldest (maxSize c) (cache c)")
  case None
  with assms show ?thesis by (simp add: cache_set_def)
next
  case (Some es)
  then have "0 < maxSize c" by (rule evict_oldest_Some_pos)
  with assms show ?thesis by simp
qed

lemma delete_head_distinct:
  "k \<notin> fst ` set es \<Longrightarrow> AList.delete k ((k, v) # es) = es"
  by (simp add: delete_id)

lemma evict_oldest_distinct:
  assumes "0 < limit"
  shows "distinct (map fst es) \<Longrightarrow>
         evict_oldest limit es = Some (drop (length es - (limit - 1)) es)"
proof (induction es)
  case Nil
  then show ?case using assms by (subst evict_oldest.simps) simp
next
  case (Cons p es)
  obtain k v where p: "p = (k, v)" by (cases p)
  from Cons.prems have d: "distinct (map fst es)" and nk: "k \<notin> fst ` set es"
    by (simp_all add: p)
  show ?case
  proof (cases "limit \<le> length (p # es)")
    case True
    have "evict_oldest limit (p # es) = evict_oldest limit (AList.delete k ((k, v) # es))"
      using True by (subst evict_oldest.simps) (simp add: p)
    also have "\<dots> = evict_oldest limit es"
      by (simp only: delete_head_distinct [OF nk])
    also have "\<dots> = Some (drop (length es - (limit - 1)) es)" using d by (rule Cons.IH)
    also have "drop (length es - (limit - 1)) es
                 = drop (length (p # es) - (limit - 1)) (p # es)"
      using True assms by (simp add: Suc_diff_le)
    finally show ?thesis .
  next
    case False
    then show ?thesis by (subst evict_oldest.simps) simp
  qed
qed


text \<open>
  Claim C7 as stated fails on a cache constructed with \<open>enabled: false\<close>: \<open>set\<close>
  returns without storing, and the \<open>get\<close> that follows is a miss.
\<close>

theorem disabled_cache_never_stores:
  "set_then_get 0 1 ''k'' 42 disabled_cache = Some None"
  by (simp add: set_then_get_def cache_set_def cache_get_def disabled_cache_def new_Cache_def)

text \<open>
  Claim C7, amended. On an enabled cache with \<open>maxSize\<close> at least 1, \<open>set(k, v)\<close>
  at time \<open>t0\<close> returns, and a \<open>get(k)\<close> at a time \<open>t1\<close> with \<open>t1 - t0 \<le> ttl\<close>
  returns \<open>v\<close> and leaves the cache as it is. On an enabled cache, \<open>get(k)\<close> of an
  entry whose age exceeds \<open>ttl\<close> is a miss and removes the entry from the store.
\<close>

theorem cache_round_trip:
  "(enabled c \<and> 0 < maxSize c \<and> t1 - t0 \<le> ttl c \<longrightarrow>
      (\<exists>c'. cache_set t0 k v c = Some c' \<and> cache_get t1 k c' = (Some v, c')))
   \<and> (enabled c \<and> map_of (cache c) k = Some e \<and> t - timestamp e > ttl c \<longrightarrow>
        cache_get t k c = (None, c\<lparr> cache := AList.delete k (cache c) \<rparr>)
        \<and> map_of (AList.delete k (cache c)) k = None)"
proof (intro conjI impI)
  assume a: "enabled c \<and> 0 < maxSize c \<and> t1 - t0 \<le> ttl c"
  then obtain es where es: "evict_oldest (maxSize c) (cache c) = Some es"
    using evict_oldest_total [of "maxSize c" "cache c"] by blast
  let ?c' = "c\<lparr> cache := AList.update k \<lparr> entry_value = v, timestamp = t0 \<rparr> es \<rparr>"
  have s: "cache_set t0 k v c = Some ?c'" using a es by (simp add: cache_set_def)
  have g: "cache_get t1 k ?c' = (Some v, ?c')"
    using a by (simp add: cache_get_def update_conv')
  from s g show "\<exists>c'. cache_set t0 k v c = Some c' \<and> cache_get t1 k c' = (Some v, c')"
    by blast
next
  assume a: "enabled c \<and> map_of (cache c) k = Some e \<and> t - timestamp e > ttl c"
  then show "cache_get t k c = (None, c\<lparr> cache := AList.delete k (cache c) \<rparr>)"
    by (simp add: cache_get_def)
next
  show "map_of (AList.delete k (cache c)) k = None"
    by (simp add: delete_conv')
qed

theorem cache_round_trip_witness:
  "(\<exists>c'. cache_set 0 ''k'' 42 small_cache = Some c' \<and> cache_get 1000 ''k'' c' = (Some 42, c'))
   \<and> fst (cache_get 1001 ''k'' (small_cache\<lparr> cache := [(''k'', \<lparr> entry_value = 42, timestamp = 0 \<rparr>)] \<rparr>)) = None
   \<and> cache (snd (cache_get 1001 ''k'' (small_cache\<lparr> cache := [(''k'', \<lparr> entry_value = 42, timestamp = 0 \<rparr>)] \<rparr>))) = []"
proof -
  have a: "enabled small_cache \<and> 0 < maxSize small_cache \<and> 1000 - 0 \<le> ttl small_cache"
    by (simp add: small_cache_def new_Cache_def nullish_def)
  let ?c = "small_cache\<lparr> cache := [(''k'', \<lparr> entry_value = 42, timestamp = 0 \<rparr>)] \<rparr>"
  have b: "enabled ?c \<and> map_of (cache ?c) ''k'' = Some \<lparr> entry_value = 42, timestamp = 0 \<rparr>
           \<and> 1001 - timestamp \<lparr> entry_value = 42 :: nat, timestamp = 0 \<rparr> > ttl ?c"
    by (simp add: small_cache_def new_Cache_def nullish_def)
  from cache_round_trip [where c = small_cache and ?t1.0 = 1000 and ?t0.0 = 0 and k = "''k''"
      and v = 42] a
  have 1: "\<exists>c'. cache_set 0 ''k'' 42 small_cache = Some c' \<and> cache_get 1000 ''k'' c' = (Some 42, c')"
    by blast
  from cache_round_trip [where c = ?c and k = "''k''" and t = 1001
      and e = "\<lparr> entry_value = 42, timestamp = 0 \<rparr>"] b
  have 2: "cache_get 1001 ''k'' ?c = (None, ?c\<lparr> cache := AList.delete ''k'' (cache ?c) \<rparr>)"
    by blast
  from 1 2 show ?thesis by (simp add: AList.delete_eq)
qed

text \<open>
  Claim C8, evaluated on the code. A filter set that holds a \<open>BigInt\<close> cannot be
  serialized; \<open>generateKey\<close> runs before the \<open>try\<close> block, so the \<open>TypeError\<close> reaches
  the caller of \<open>get\<close>, whatever the store, the clock and the fetch function.
\<close>

theorem get_raises_on_unserializable_filters:
  "CacheManager_get digest now ''videos'' (JObject [(''minViews'', JBigInt 1000)]) fetchFunction cm
     = Inl TypeError"
  by (simp add: CacheManager_get_def generateKey_def)

text \<open>
  Once the key exists, \<open>get\<close> never raises: what the store or the fetch function
  throws inside the \<open>try\<close> block comes back as \<open>null\<close>.
\<close>

lemma get_absorbs_faults_in_try:
  "serializable filters \<Longrightarrow>
   \<exists>res cm'. CacheManager_get digest now query filters fetchFunction cm = Inr (res, cm')"
  by (auto simp: CacheManager_get_def generateKey_def split: sum.splits prod.splits)

lemma get_fetch_fault_is_miss:
  "serializable filters \<Longrightarrow> nc_get (digest query filters) cm = None \<Longrightarrow>
   \<exists>cm'. CacheManager_get digest now query filters (Some (Inl e)) cm = Inr (None, cm')"
  by (simp add: CacheManager_get_def generateKey_def get_try_def Let_def)

lemma foldl_delete_filter:
  "foldl (\<lambda>store key. AList.delete key store) store ks = filter (\<lambda>p. fst p \<notin> set ks) store"
proof (induction ks arbitrary: store)
  case Nil
  then show ?case by simp
next
  case (Cons k ks)
  have "AList.delete k store = filter (\<lambda>p. fst p \<noteq> k) store"
    by (simp add: AList.delete_eq case_prod_unfold eq_commute)
  then show ?case by (simp add: Cons.IH conj_commute)
qed

lemma accessPatterns_mem:
  "(k, n) \<in> set (accessPatterns store)
     \<longleftrightarrow> n \<noteq> 0 \<and> (\<exists>v. (k, v) \<in> set store \<and> accessCountOf v = n)"
  by (auto simp: accessPatterns_def)

lemma sorted_take_drop:
  assumes "sorted (map f xs)" and "x \<in> set (take n xs)" and "y \<in> set (drop n xs)"
  shows "f x \<le> f y"
proof -
  have "sorted (map f (take n xs) @ map f (drop n xs))"
    using assms(1) by (simp flip: map_append)
  then show ?thesis using assms(2,3) by (auto simp: sorted_append)
qed

lemma cleanCache_store:
  "nc_cache (cleanCache cm) =
     (if 10 * length (nc_cache cm) \<le> 7 * or_default (Some (maxKeys cm)) 1000 then nc_cache cm
      else filter (\<lambda>p. fst p \<notin> set (take (removeCount (nc_cache cm)) (sortedKeys (nc_cache cm))))
             (nc_cache cm))"
  by (simp add: cleanCache_def foldl_delete_filter)

lemma removed_is_least_accessed:
  assumes d: "distinct (map fst store)"
    and e1: "(k1, v1) \<in> set store" and e2: "(k2, v2) \<in> set store"
    and r1: "k1 \<in> set (take n (sortedKeys store))"
    and r2: "k2 \<notin> set (take n (sortedKeys store))"
  shows "accessCountOf v1 \<noteq> 0
         \<and> (accessCountOf v2 \<noteq> 0 \<longrightarrow> accessCountOf v1 \<le> accessCountOf v2)"
proof -
  let ?srt = "sort_key snd (accessPatterns store)"
  have tk: "take n (sortedKeys store) = map fst (take n ?srt)"
    by (simp add: sortedKeys_def take_map)
  from r1 obtain c1 where c1: "(k1, c1) \<in> set (take n ?srt)"
    unfolding tk by auto
  then have "(k1, c1) \<in> set (accessPatterns store)"
    using in_set_takeD by fastforce
  then obtain w where w: "c1 \<noteq> 0" "(k1, w) \<in> set store" "accessCountOf w = c1"
    by (auto simp: accessPatterns_mem)
  from d w(2) e1 have "w = v1" by (rule eq_key_imp_eq_value)
  with w have a1: "accessCountOf v1 = c1" "c1 \<noteq> 0" by simp_all
  have le: "accessCountOf v1 \<le> accessCountOf v2" if nz: "accessCountOf v2 \<noteq> 0"
  proof -
    from e2 nz have "(k2, accessCountOf v2) \<in> set (accessPatterns store)"
      by (auto simp: accessPatterns_mem)
    then have "(k2, accessCountOf v2) \<in> set ?srt" by simp
    moreover have "set ?srt = set (take n ?srt) \<union> set (drop n ?srt)"
      by (metis append_take_drop_id set_append)
    moreover have "(k2, accessCountOf v2) \<notin> set (take n ?srt)"
      using r2 unfolding tk by force
    ultimately have dr: "(k2, accessCountOf v2) \<in> set (drop n ?srt)" by blast
    have "sorted (map snd ?srt)" by (rule sorted_sort_key)
    from sorted_take_drop [OF this c1 dr] a1 show ?thesis by simp
  qed
  from a1 le show ?thesis by simp
qed

lemma length_update_le: "length (AList.update k e al) \<le> Suc (length al)"
  by (induction al) auto

lemma cache_set_bounded:
  assumes "0 < limit"
  shows "length (AList.update k e (drop (length es - (limit - 1)) es)) \<le> limit"
proof -
  have "length (AList.update k e (drop (length es - (limit - 1)) es))
          \<le> Suc (length (drop (length es - (limit - 1)) es))"
    by (rule length_update_le)
  also have "\<dots> \<le> Suc (limit - 1)" by simp
  also have "\<dots> = limit" using assms by simp
  finally show ?thesis .
qed

text \<open>
  \<open>cleanCache\<close> on a full manager with \<open>maxKeys = 10\<close> (five values, five metadata
  entries): one key is deleted, the metadata of the least read lookup.
\<close>

lemma cleanCache_on_full_manager:
  "map fst (nc_cache (cleanCache full_manager)) =
     [''a'', ''a_metadata'', ''b'', ''c'', ''c_metadata'', ''d'', ''d_metadata'', ''e'',
      ''e_metadata'']"
  by (simp add: cleanCache_def full_manager_def or_default_def removeCount_def sortedKeys_def
      accessPatterns_def accessCountOf_def AList.delete_eq)

text \<open>
  Claim C6 as stated fails on \<open>Cache.set\<close>. A cache of size three holds three entries;
  inserting a fourth deletes the entry inserted first and nothing else, so three entries
  remain: all of the capacity, not 70% of it, and one entry went for one insert.
\<close>

theorem set_on_full_cache_evicts_one:
  "map fst (cache full_small_cache) = [''a'', ''b'', ''c'']
   \<and> maxSize full_small_cache = 3
   \<and> keys_after_set 5 ''d'' 4 full_small_cache = Some [''b'', ''c'', ''d'']"
  by (simp add: cache_set_def small_cache_def new_Cache_def nullish_def evict_oldest.simps
      full_small_cache_def keys_after_set_def AList.delete_eq)

text \<open>
  Claim C6, amended. \<open>Cache.set\<close> on an enabled cache with \<open>maxSize\<close> at least 1 keeps the
  \<open>maxSize - 1\<close> entries inserted last and then stores the new one: the oldest entries
  go first, access plays no part, and the cache holds at most \<open>maxSize\<close> entries
  afterwards. \<open>cleanCache\<close> deletes by ascending access count: of two keys that carry an
  access count, the one with the higher count is not deleted while the other is kept.
\<close>

theorem bulk_eviction_by_access_count:
  "(distinct (map fst (nc_cache cm))
      \<and> (k1, v1) \<in> set (nc_cache cm) \<and> (k2, v2) \<in> set (nc_cache cm)
      \<and> accessCountOf v1 \<noteq> 0 \<and> accessCountOf v2 \<noteq> 0
      \<and> k1 \<notin> fst ` set (nc_cache (cleanCache cm))
      \<and> k2 \<in> fst ` set (nc_cache (cleanCache cm)) \<longrightarrow>
        accessCountOf v1 \<le> accessCountOf v2)
   \<and> (enabled c \<and> 0 < maxSize c \<and> distinct (map fst (cache c)) \<longrightarrow>
        cache_set now k v c =
          Some (c\<lparr> cache := AList.update k \<lparr> entry_value = v, timestamp = now \<rparr>
                               (drop (length (cache c) - (maxSize c - 1)) (cache c)) \<rparr>)
        \<and> length (AList.update k \<lparr> entry_value = v, timestamp = now \<rparr>
                     (drop (length (cache c) - (maxSize c - 1)) (cache c))) \<le> maxSize c)"
proof (intro conjI impI)
  let ?S = "nc_cache cm"
  let ?R = "take (removeCount ?S) (sortedKeys ?S)"
  assume a: "distinct (map fst ?S)
        \<and> (k1, v1) \<in> set ?S \<and> (k2, v2) \<in> set ?S
        \<and> accessCountOf v1 \<noteq> 0 \<and> accessCountOf v2 \<noteq> 0
        \<and> k1 \<notin> fst ` set (nc_cache (cleanCache cm))
        \<and> k2 \<in> fst ` set (nc_cache (cleanCache cm))"
  then have k1: "k1 \<in> fst ` set ?S" by force
  have g: "\<not> 10 * length ?S \<le> 7 * or_default (Some (maxKeys cm)) 1000"
    using a k1 by (auto simp: cleanCache_store)
  then have st: "nc_cache (cleanCache cm) = filter (\<lambda>p. fst p \<notin> set ?R) ?S"
    by (simp add: cleanCache_store)
  have r1: "k1 \<in> set ?R" using a unfolding st by force
  have r2: "k2 \<notin> set ?R" using a unfolding st by auto
  from a r1 r2 removed_is_least_accessed [of ?S k1 v1 k2 v2 "removeCount ?S"]
  show "accessCountOf v1 \<le> accessCountOf v2" by blast
next
  assume a: "enabled c \<and> 0 < maxSize c \<and> distinct (map fst (cache c))"
  then show "cache_set now k v c =
          Some (c\<lparr> cache := AList.update k \<lparr> entry_value = v, timestamp = now \<rparr>
                               (drop (length (cache c) - (maxSize c - 1)) (cache c)) \<rparr>)"
    by (simp add: cache_set_def evict_oldest_distinct)
  from a have "0 < maxSize c" by simp
  then show "length (AList.update k \<lparr> entry_value = v, timestamp = now \<rparr>
                     (drop (length (cache c) - (maxSize c - 1)) (cache c))) \<le> maxSize c"
    by (rule cache_set_bounded)
qed

theorem bulk_eviction_by_access_count_witness:
  "accessCountOf (Metadata 1 0 ''qb'' JUndefined :: nat stored)
        \<le> accessCountOf (Metadata 2 0 ''qd'' JUndefined :: nat stored)
   \<and> cache_set 5 ''d'' 4 full_small_cache =
        Some (full_small_cache\<lparr> cache := [(''b'', \<lparr> entry_value = 2, timestamp = 2 \<rparr>),
                                          (''c'', \<lparr> entry_value = 3, timestamp = 3 \<rparr>),
                                          (''d'', \<lparr> entry_value = 4, timestamp = 5 \<rparr>)] \<rparr>)"
proof -
  have h2: "distinct (map fst (nc_cache full_manager))
        \<and> (''b_metadata'', Metadata 1 0 ''qb'' JUndefined) \<in> set (nc_cache full_manager)
        \<and> (''d_metadata'', Metadata 2 0 ''qd'' JUndefined) \<in> set (nc_cache full_manager)
        \<and> accessCountOf (Metadata 1 0 ''qb'' JUndefined :: nat stored) \<noteq> 0
        \<and> accessCountOf (Metadata 2 0 ''qd'' JUndefined :: nat stored) \<noteq> 0
        \<and> ''b_metadata'' \<notin> fst ` set (nc_cache (cleanCache full_manager))
        \<and> ''d_metadata'' \<in> fst ` set (nc_cache (cleanCache full_manager))"
    unfolding set_map [symmetric] cleanCache_on_full_manager
    by (simp add: full_manager_def accessCountOf_def)
  have h3: "enabled full_small_cache \<and> 0 < maxSize full_small_cache
            \<and> distinct (map fst (cache full_small_cache))"
    by (simp add: full_small_cache_def small_cache_def new_Cache_def nullish_def)
  from bulk_eviction_by_access_count [where cm = full_manager and ?k1.0 = "''b_metadata''"
      and ?v1.0 = "Metadata 1 0 ''qb'' JUndefined" and ?k2.0 = "''d_metadata''"
      and ?v2.0 = "Metadata 2 0 ''qd'' JUndefined" and c = full_small_cache and now = 5
      and k = "''d''" and v = 4] h2 h3
  have B: "accessCountOf (Metadata 1 0 ''qb'' JUndefined :: nat stored)
          \<le> accessCountOf (Metadata 2 0 ''qd'' JUndefined :: nat stored)"
    and C: "cache_set 5 ''d'' 4 full_small_cache =
          Some (full_small_cache\<lparr> cache := AList.update ''d'' \<lparr> entry_value = 4, timestamp = 5 \<rparr>
             (drop (length (cache full_small_cache) - (maxSize full_small_cache - 1))
                (cache full_small_cache)) \<rparr>)"
    by blast+
  have S: "cache_set 5 ''d'' 4 full_small_cache =
        Some (full_small_cache\<lparr> cache := [(''b'', \<lparr> entry_value = 2, timestamp = 2 \<rparr>),
                                          (''c'', \<lparr> entry_value = 3, timestamp = 3 \<rparr>),
                                          (''d'', \<lparr> entry_value = 4, timestamp = 5 \<rparr>)] \<rparr>)"
    using C by (simp add: full_small_cache_def small_cache_def new_Cache_def nullish_def)
  from B S show ?thesis by simp
qed

end
